theory Spec2Isabelle
  imports Main "HOL-Library.Word"
begin

unbundle bit_operations_syntax

section \<open>VTFS: an in-memory file system (vtfs.h, vtfs_file.c, vtfs_inode.c, vtfs_dir.c)\<close>

text \<open>
  The embedding follows the C sources on an LP64 Linux kernel: \<open>size_t\<close>, \<open>ino_t\<close> and
  \<open>u64\<close> are 64-bit unsigned (natural numbers, overflow guarded or written out),
  \<open>loff_t\<close> is 64-bit signed (integers, wrapped by \<open>to_loff\<close> where the code stores one),
  \<open>uint\<close> is 32-bit unsigned, \<open>umode_t\<close> is a 16-bit word. Nodes live in an explicit
  store: a pointer is an address or \<open>None\<close> for \<open>NULL\<close>; following a pointer to memory
  that holds no node is the error \<open>Oops\<close>. The per-node mutex is left out: every
  operation is modelled as running alone.
\<close>

subsection \<open>Types and constants\<close>

type_synonym byte = "8 word"
type_synonym addr = nat
type_synonym umode_t = "16 word"

datatype errno =
  EPERM | ENOENT | EIO | ENOMEM | EFAULT | EEXIST | ENOTDIR | EISDIR | EINVAL | EFBIG
  | ENOTEMPTY | Oops

text \<open>\<open>struct vtfs_node\<close> of vtfs.h. \<open>name\<close> is the C string held in \<open>char name[255]\<close>
  (its bytes before the terminating NUL); \<open>data\<close> is the allocation behind \<open>char *data\<close>
  (\<open>None\<close> for \<open>NULL\<close>), all its bytes, used or not; \<open>size\<close> is called \<open>size_f\<close>.\<close>

record vtfs_node =
  name :: string
  ino :: nat
  is_dir :: bool
  mode :: umode_t
  parent :: "addr option"
  first_child :: "addr option"
  next_sibling :: "addr option"
  link_target :: "addr option"
  data :: "byte list option"
  size_f :: nat
  capacity :: nat

type_synonym heap = "addr \<rightharpoonup> vtfs_node"

definition VTFS_FILE_NAME_LEN :: nat where
  "VTFS_FILE_NAME_LEN = 255"

definition SIZE_MAX :: nat where
  "SIZE_MAX = 2 ^ 64 - 1"

definition PAGE_SIZE :: nat where
  "PAGE_SIZE = 4096"

definition to_loff :: "int \<Rightarrow> int" where
  "to_loff x = (x + 2 ^ 63) mod 2 ^ 64 - 2 ^ 63"

subsection \<open>Kernel services the file operations call\<close>

text \<open>\<open>memset(bs + off, c, n)\<close>.\<close>

definition memset :: "byte list \<Rightarrow> nat \<Rightarrow> byte \<Rightarrow> nat \<Rightarrow> byte list" where
  "memset bs off c n = take off bs @ replicate n c @ drop (off + n) bs"

text \<open>\<open>krealloc(p, new_size, GFP_KERNEL)\<close>: \<open>None\<close> when the allocator fails (\<open>ok\<close> is
  false); otherwise the old bytes, followed by whatever the fresh memory holds (\<open>junk\<close>,
  indexed by offset: the kernel does not clear it).\<close>

definition krealloc :: "byte list option \<Rightarrow> nat \<Rightarrow> bool \<Rightarrow> (nat \<Rightarrow> byte) \<Rightarrow> byte list option" where
  "krealloc p new_size ok junk =
     (if ok then
        (let old = (case p of None \<Rightarrow> [] | Some bs \<Rightarrow> bs)
         in Some (take new_size old @ map junk [length old..<new_size]))
      else None)"

text \<open>\<open>copy_from_user(dst + off, src, n)\<close> with \<open>n = length src\<close>: the user memory lets
  \<open>avail\<close> bytes through before it faults. The kernel copies those, clears the rest of
  the \<open>n\<close> destination bytes, and returns the number of bytes it could not copy.\<close>

definition copy_from_user :: "byte list \<Rightarrow> nat \<Rightarrow> byte list \<Rightarrow> nat \<Rightarrow> byte list \<times> nat" where
  "copy_from_user dst off src avail =
     (let n = length src; k = min avail n
      in (take off dst @ take k src @ replicate (n - k) 0 @ drop (off + n) dst, n - k))"

text \<open>What the surroundings decide during one \<open>vtfs_write\<close>: whether \<open>krealloc\<close> succeeds,
  what the memory it returns holds, and how many bytes the first and the second
  \<open>copy_from_user\<close> let through.\<close>

record wenv =
  krealloc_ok :: bool
  junk :: "nat \<Rightarrow> byte"
  copy1 :: nat
  copy2 :: nat

subsection \<open>vtfs_file.c\<close>

text \<open>\<open>vtfs_data_node\<close>: \<open>node->link_target ? node->link_target : node\<close>.\<close>

definition vtfs_data_node :: "heap \<Rightarrow> addr \<Rightarrow> errno + addr" where
  "vtfs_data_node h node =
     (case h node of
        None \<Rightarrow> Inl Oops
      | Some n \<Rightarrow> (case link_target n of Some t \<Rightarrow> Inr t | None \<Rightarrow> Inr node))"

text \<open>\<open>vtfs_read\<close>. \<open>priv\<close> is \<open>inode->i_private\<close>, \<open>ppos\<close> the value of \<open>*ppos\<close>, \<open>len\<close> the
  requested length, \<open>ctu_ok\<close> whether \<open>copy_to_user\<close> succeeds. The result is the error or
  the bytes handed to the caller (their number is the C return value), and the new
  \<open>*ppos\<close>.\<close>

definition vtfs_read :: "heap \<Rightarrow> addr \<Rightarrow> int \<Rightarrow> nat \<Rightarrow> bool \<Rightarrow> (errno + byte list) \<times> int" where
  "vtfs_read h priv ppos len ctu_ok =
     (case vtfs_data_node h priv of
        Inl e \<Rightarrow> (Inl e, ppos)
      | Inr d \<Rightarrow>
          (case h d of
             None \<Rightarrow> (Inl Oops, ppos)
           | Some node \<Rightarrow>
               if is_dir node then (Inl EISDIR, ppos)
               else if ppos < 0 then (Inl EINVAL, ppos)
               else
                 (case data node of
                    None \<Rightarrow> (Inr [], ppos)
                  | Some bs \<Rightarrow>
                      if int (size_f node) \<le> ppos then (Inr [], ppos)
                      else
                        (let available = size_f node - nat ppos;
                             to_copy = min available len
                         in if to_copy = 0 then (Inr [], ppos)
                            else if \<not> ctu_ok then (Inl EFAULT, ppos)
                            else (Inr (take to_copy (drop (nat ppos) bs)),
                                  to_loff (ppos + int to_copy))))))"

text \<open>The capacity loop of \<open>vtfs_write\<close> (lines 125-135). It runs forever from capacity 0,
  hence the option: \<open>None\<close> is a loop that does not end.\<close>

partial_function (option) grow_loop :: "nat \<Rightarrow> nat \<Rightarrow> (errno + nat) option" where
  "grow_loop new_capacity end_pos =
     (if new_capacity < end_pos then
        (if new_capacity > SIZE_MAX div 2 then Some (Inl EFBIG)
         else grow_loop (new_capacity * 2) end_pos)
      else Some (Inr new_capacity))"

text \<open>Lines 118-154: the buffer is grown when \<open>end_pos\<close> exceeds the capacity.\<close>

definition grow_buffer :: "vtfs_node \<Rightarrow> nat \<Rightarrow> wenv \<Rightarrow> (errno + vtfs_node) option" where
  "grow_buffer node end_pos env =
     (if end_pos > capacity node then
        (case grow_loop (if capacity node = 0 then PAGE_SIZE else capacity node) end_pos of
           None \<Rightarrow> None
         | Some (Inl e) \<Rightarrow> Some (Inl e)
         | Some (Inr new_capacity) \<Rightarrow>
             (case krealloc (data node) new_capacity (krealloc_ok env) (junk env) of
                None \<Rightarrow> Some (Inl ENOMEM)
              | Some new_data \<Rightarrow>
                  Some (Inr (node\<lparr>data :=
                               Some (if new_capacity > capacity node
                                     then memset new_data (capacity node) 0
                                            (new_capacity - capacity node)
                                     else new_data),
                             capacity := new_capacity\<rparr>))))
      else Some (Inr node))"

text \<open>Lines 156-190: the hole is cleared, the caller's bytes are copied in (twice when the
  first copy stops early), and the size is brought up to date. The result is the return
  value, the node, and the number of bytes by which \<open>*ppos\<close> moves past \<open>pos\<close>.\<close>

definition copy_in :: "vtfs_node \<Rightarrow> nat \<Rightarrow> byte list \<Rightarrow> wenv \<Rightarrow> (errno + nat) \<times> vtfs_node \<times> nat" where
  "copy_in node pos buf env =
     (case data node of
        None \<Rightarrow> (Inl Oops, node, 0)
      | Some bs0 \<Rightarrow>
          (let len = length buf;
               end_pos = pos + len;
               bs1 = (if pos > size_f node
                      then memset bs0 (size_f node) 0 (pos - size_f node) else bs0);
               full = (\<lambda>bs. (Inr len,
                             node\<lparr>data := Some bs,
                                  size_f := (if end_pos > size_f node then end_pos
                                             else size_f node)\<rparr>,
                             len))
           in case copy_from_user bs1 pos buf (copy1 env) of
                (bs2, failed) \<Rightarrow>
                  if failed \<noteq> 0 then
                    (case copy_from_user bs2 pos buf (copy2 env) of
                       (bs3, not_copied) \<Rightarrow>
                         (let written = len - not_copied
                          in if not_copied \<noteq> 0 then
                               ((if written \<noteq> 0 then Inr written else Inl EFAULT),
                                node\<lparr>data := Some bs3,
                                     size_f := (if pos + written > size_f node
                                                then pos + written else size_f node)\<rparr>,
                                written)
                             else full bs3))
                  else full bs2))"

text \<open>\<open>vtfs_write\<close>. \<open>o_append\<close> is \<open>file->f_flags & O_APPEND\<close>, \<open>buf\<close> the caller's bytes
  (\<open>len\<close> is their number). The result is the return value, the store and the new
  \<open>*ppos\<close>.\<close>

definition vtfs_write ::
  "heap \<Rightarrow> addr \<Rightarrow> bool \<Rightarrow> int \<Rightarrow> byte list \<Rightarrow> wenv \<Rightarrow> ((errno + nat) \<times> heap \<times> int) option" where
  "vtfs_write h priv o_append ppos buf env =
     (case vtfs_data_node h priv of
        Inl e \<Rightarrow> Some (Inl e, h, ppos)
      | Inr d \<Rightarrow>
          (case h d of
             None \<Rightarrow> Some (Inl Oops, h, ppos)
           | Some node \<Rightarrow>
               if is_dir node then Some (Inl EISDIR, h, ppos)
               else
                 (let pos = (if o_append then to_loff (int (size_f node)) else ppos);
                      len = length buf
                  in if pos < 0 then Some (Inl EINVAL, h, ppos)
                     else if len = 0 then Some (Inr 0, h, ppos)
                     else if pos > int SIZE_MAX then Some (Inl EFBIG, h, ppos)
                     else if len > SIZE_MAX - nat pos then Some (Inl EFBIG, h, ppos)
                     else
                       (case grow_buffer node (nat pos + len) env of
                          None \<Rightarrow> None
                        | Some (Inl e) \<Rightarrow> Some (Inl e, h, ppos)
                        | Some (Inr node1) \<Rightarrow>
                            (case copy_in node1 (nat pos) buf env of
                               (ret, node2, moved) \<Rightarrow>
                                 Some (ret, h(d \<mapsto> node2), to_loff (pos + int moved)))))))"


subsection \<open>Kernel services the tree operations call\<close>

text \<open>File-type bits of a mode and directory-entry types, as in the kernel headers.\<close>

definition S_IFMT :: umode_t where
  "S_IFMT = 0xF000"

definition S_IFDIR :: umode_t where
  "S_IFDIR = 0x4000"

definition S_IFREG :: umode_t where
  "S_IFREG = 0x8000"

definition S_ISDIR :: "umode_t \<Rightarrow> bool" where
  "S_ISDIR m \<longleftrightarrow> m AND S_IFMT = S_IFDIR"

definition DT_DIR :: nat where
  "DT_DIR = 4"

definition DT_REG :: nat where
  "DT_REG = 8"

text \<open>\<open>strscpy(dst, src, count)\<close>: at most \<open>count - 1\<close> bytes of the source string, then the
  terminating NUL; the result is the string \<open>dst\<close> holds. \<open>strnlen(s, max)\<close> is the
  length of \<open>s\<close>, capped.\<close>

definition strscpy :: "string \<Rightarrow> nat \<Rightarrow> string" where
  "strscpy src count = take (count - 1) src"

definition strnlen :: "string \<Rightarrow> nat \<Rightarrow> nat" where
  "strnlen s maxlen = min (length s) maxlen"

text \<open>What \<open>kzalloc\<close> returns is all zero.\<close>

definition zero_node :: vtfs_node where
  "zero_node = \<lparr>name = [], ino = 0, is_dir = False, mode = 0, parent = None,
     first_child = None, next_sibling = None, link_target = None, data = None, size_f = 0,
     capacity = 0\<rparr>"

text \<open>An assignment to fields of \<open>*a\<close>, for a pointer already known to be valid.\<close>

definition store :: "heap \<Rightarrow> addr \<Rightarrow> (vtfs_node \<Rightarrow> vtfs_node) \<Rightarrow> heap" where
  "store h a f = (case h a of None \<Rightarrow> h | Some n \<Rightarrow> h(a \<mapsto> f n))"

text \<open>\<open>struct vtfs_fs\<close> (the super block pointer is left out), and the fields of
  \<open>struct inode\<close> that the operations read.\<close>

record vtfs_fs =
  root :: "addr option"
  next_ino :: nat

record inode =
  i_ino :: nat
  i_mode :: umode_t
  i_private :: "addr option"

text \<open>What the surroundings decide during one tree operation: the pointer \<open>kzalloc\<close>
  returns (\<open>None\<close> for \<open>NULL\<close>) and whether \<open>new_inode\<close> succeeds.\<close>

record tenv =
  kzalloc_ret :: "addr option"
  new_inode_ok :: bool

text \<open>\<open>vtfs_get_inode\<close> (in the module's main file): \<open>NULL\<close> when \<open>new_inode\<close> fails,
  otherwise an inode carrying the node's number and mode and pointing back at the node.\<close>

definition vtfs_get_inode :: "heap \<Rightarrow> addr \<Rightarrow> bool \<Rightarrow> errno + inode option" where
  "vtfs_get_inode h node ok =
     (if \<not> ok then Inr None
      else (case h node of
              None \<Rightarrow> Inl Oops
            | Some n \<Rightarrow> Inr (Some \<lparr>i_ino = ino n, i_mode = mode n, i_private = Some node\<rparr>)))"

subsection \<open>vtfs_inode.c\<close>

text \<open>\<open>vtfs_alloc_node\<close>: the store with the new node in it and the pointer returned.\<close>

definition vtfs_alloc_node :: "heap \<Rightarrow> addr option \<Rightarrow> string \<Rightarrow> bool \<Rightarrow> umode_t \<Rightarrow> heap \<times> addr option" where
  "vtfs_alloc_node h kz nm isdir md =
     (case kz of
        None \<Rightarrow> (h, None)
      | Some node \<Rightarrow>
          (let inode_mode = (if md AND S_IFMT = 0
                             then md OR (if isdir then S_IFDIR else S_IFREG) else md)
           in (h(node \<mapsto> zero_node\<lparr>name := strscpy nm VTFS_FILE_NAME_LEN, is_dir := isdir,
                                     mode := inode_mode, data := None, size_f := 0,
                                     capacity := 0\<rparr>),
               Some node)))"

text \<open>The scan of a sibling chain for a name (the loops of \<open>vtfs_lookup\<close> and
  \<open>vtfs_mkdir\<close>): the first child whose stored name equals \<open>nm\<close>, or \<open>NULL\<close>. On a chain
  that loops it does not end (\<open>None\<close>).\<close>

partial_function (option) find_child :: "heap \<Rightarrow> addr option \<Rightarrow> string \<Rightarrow> (errno + addr option) option" where
  "find_child h cur nm =
     (case cur of
        None \<Rightarrow> Some (Inr None)
      | Some c \<Rightarrow>
          (case h c of
             None \<Rightarrow> Some (Inl Oops)
           | Some n \<Rightarrow> if name n = nm then Some (Inr (Some c))
                       else find_child h (next_sibling n) nm))"

text \<open>\<open>vtfs_lookup\<close>: the inode handed to \<open>d_add\<close> (\<open>None\<close> for a negative entry).\<close>

definition vtfs_lookup :: "heap \<Rightarrow> addr option \<Rightarrow> string \<Rightarrow> tenv \<Rightarrow> (errno + inode option) option" where
  "vtfs_lookup h parent_node nm env =
     (case parent_node of
        None \<Rightarrow> Some (Inr None)
      | Some p \<Rightarrow>
          (case h p of
             None \<Rightarrow> Some (Inl Oops)
           | Some pn \<Rightarrow>
               (case find_child h (first_child pn) nm of
                  None \<Rightarrow> None
                | Some (Inl e) \<Rightarrow> Some (Inl e)
                | Some (Inr None) \<Rightarrow> Some (Inr None)
                | Some (Inr (Some child)) \<Rightarrow>
                    (case vtfs_get_inode h child (new_inode_ok env) of
                       Inl e \<Rightarrow> Some (Inl e)
                     | Inr None \<Rightarrow> Some (Inl ENOMEM)
                     | Inr (Some i) \<Rightarrow> Some (Inr (Some i))))))"

text \<open>The loop shared by \<open>vtfs_unlink\<close> and \<open>vtfs_rmdir\<close>: it walks the chain with \<open>prev\<close> and
  \<open>cur\<close>, and at \<open>node\<close> takes it out and clears its links. The result is the store and the
  final \<open>cur\<close> (\<open>NULL\<close> when the node was not met).\<close>

partial_function (option) detach_loop ::
  "heap \<Rightarrow> addr \<Rightarrow> addr \<Rightarrow> addr option \<Rightarrow> addr option \<Rightarrow> (errno + heap \<times> addr option) option" where
  "detach_loop h parent_a node prev cur =
     (case cur of
        None \<Rightarrow> Some (Inr (h, None))
      | Some c \<Rightarrow>
          (case h c of
             None \<Rightarrow> Some (Inl Oops)
           | Some cn \<Rightarrow>
               if c = node then
                 (let h1 = (case prev of
                              Some pv \<Rightarrow> store h pv (\<lambda>n. n\<lparr>next_sibling := next_sibling cn\<rparr>)
                            | None \<Rightarrow> store h parent_a (\<lambda>n. n\<lparr>first_child := next_sibling cn\<rparr>));
                      h2 = store h1 node (\<lambda>n. n\<lparr>parent := None, next_sibling := None\<rparr>)
                  in Some (Inr (h2, Some c)))
               else detach_loop h parent_a node (Some c) (next_sibling cn)))"

text \<open>\<open>vtfs_unlink\<close>. \<open>parent_node\<close> is \<open>dir->i_private\<close>, \<open>node\<close> the node of the entry's inode
  (\<open>NULL\<close> without an inode).\<close>

definition vtfs_unlink :: "heap \<Rightarrow> addr option \<Rightarrow> addr option \<Rightarrow> ((errno + unit) \<times> heap) option" where
  "vtfs_unlink h parent_node node =
     (case (parent_node, node) of
        (Some p, Some nd) \<Rightarrow>
          (case h nd of
             None \<Rightarrow> Some (Inl Oops, h)
           | Some n \<Rightarrow>
               if is_dir n then Some (Inl EISDIR, h)
               else
                 (case h p of
                    None \<Rightarrow> Some (Inl Oops, h)
                  | Some pn \<Rightarrow>
                      (case detach_loop h p nd None (first_child pn) of
                         None \<Rightarrow> None
                       | Some (Inl e) \<Rightarrow> Some (Inl e, h)
                       | Some (Inr (h', None)) \<Rightarrow> Some (Inl ENOENT, h')
                       | Some (Inr (h', Some c)) \<Rightarrow> Some (Inr (), h'))))
      | _ \<Rightarrow> Some (Inl EINVAL, h))"

text \<open>\<open>vtfs_create\<close>. The result is the return value (the new node on success), the store
  and the file system record.\<close>

definition vtfs_create ::
  "heap \<Rightarrow> vtfs_fs option \<Rightarrow> addr option \<Rightarrow> string \<Rightarrow> umode_t \<Rightarrow> tenv
     \<Rightarrow> (errno + addr) \<times> heap \<times> vtfs_fs option" where
  "vtfs_create h fs parent_node nm md env =
     (case (parent_node, fs) of
        (Some p, Some f) \<Rightarrow>
          (case vtfs_alloc_node h (kzalloc_ret env) nm False md of
             (h0, None) \<Rightarrow> (Inl ENOMEM, h, fs)
           | (h0, Some node) \<Rightarrow>
               (case h0 p of
                  None \<Rightarrow> (Inl Oops, h0, fs)
                | Some pn \<Rightarrow>
                    (let h1 = store h0 node (\<lambda>n. n\<lparr>ino := next_ino f\<rparr>);
                         f' = f\<lparr>next_ino := (next_ino f + 1) mod 2 ^ 64\<rparr>;
                         h2 = store h1 node (\<lambda>n. n\<lparr>parent := Some p\<rparr>);
                         h3 = (case h2 p of
                                 None \<Rightarrow> h2
                               | Some pn2 \<Rightarrow>
                                   store h2 node (\<lambda>n. n\<lparr>next_sibling := first_child pn2\<rparr>));
                         h4 = store h3 p (\<lambda>n. n\<lparr>first_child := Some node\<rparr>)
                     in case vtfs_get_inode h4 node (new_inode_ok env) of
                          Inl e \<Rightarrow> (Inl e, h4, Some f')
                        | Inr None \<Rightarrow>
                            (let h5 = (case h4 node of
                                         None \<Rightarrow> h4
                                       | Some n \<Rightarrow>
                                           store h4 p (\<lambda>q. q\<lparr>first_child := next_sibling n\<rparr>))
                             in (Inl ENOMEM, h5(node := None), Some f'))
                        | Inr (Some i) \<Rightarrow> (Inr node, h4, Some f'))))
      | _ \<Rightarrow> (Inl EINVAL, h, fs))"

text \<open>\<open>vtfs_mkdir\<close>.\<close>

definition vtfs_mkdir ::
  "heap \<Rightarrow> vtfs_fs option \<Rightarrow> addr option \<Rightarrow> string \<Rightarrow> umode_t \<Rightarrow> tenv
     \<Rightarrow> ((errno + addr) \<times> heap \<times> vtfs_fs option) option" where
  "vtfs_mkdir h fs parent_node nm md env =
     (case (parent_node, fs) of
        (Some p, Some f) \<Rightarrow>
          (case h p of
             None \<Rightarrow> Some (Inl Oops, h, fs)
           | Some pn0 \<Rightarrow>
               (case find_child h (first_child pn0) nm of
                  None \<Rightarrow> None
                | Some (Inl e) \<Rightarrow> Some (Inl e, h, fs)
                | Some (Inr (Some cur)) \<Rightarrow> Some (Inl EEXIST, h, fs)
                | Some (Inr None) \<Rightarrow>
                    (let md1 = (if md AND S_IFMT = 0 then md OR S_IFDIR else md)
                     in case vtfs_alloc_node h (kzalloc_ret env) nm True md1 of
                          (h0, None) \<Rightarrow> Some (Inl ENOMEM, h, fs)
                        | (h0, Some node) \<Rightarrow>
                            (let h1 = store h0 node (\<lambda>n. n\<lparr>ino := next_ino f\<rparr>);
                                 f' = f\<lparr>next_ino := (next_ino f + 1) mod 2 ^ 64\<rparr>;
                                 h2 = store h1 node (\<lambda>n. n\<lparr>parent := Some p\<rparr>);
                                 h3 = (case h2 p of
                                         None \<Rightarrow> h2
                                       | Some pn2 \<Rightarrow>
                                           store h2 node (\<lambda>n. n\<lparr>next_sibling := first_child pn2\<rparr>));
                                 h4 = store h3 p (\<lambda>n. n\<lparr>first_child := Some node\<rparr>)
                             in case vtfs_get_inode h4 node (new_inode_ok env) of
                                  Inl e \<Rightarrow> Some (Inl e, h4, Some f')
                                | Inr None \<Rightarrow>
                                    (let h5 = (case h4 node of
                                                 None \<Rightarrow> h4
                                               | Some n \<Rightarrow>
                                                   store h4 p (\<lambda>q. q\<lparr>first_child := next_sibling n\<rparr>));
                                         h6 = store h5 node (\<lambda>n. n\<lparr>next_sibling := None\<rparr>);
                                         h7 = store h6 node (\<lambda>n. n\<lparr>parent := None\<rparr>)
                                     in Some (Inl ENOMEM, h7(node := None), Some f'))
                                | Inr (Some i) \<Rightarrow> Some (Inr node, h4, Some f')))))
      | _ \<Rightarrow> Some (Inl EINVAL, h, fs))"

text \<open>\<open>vtfs_rmdir\<close>.\<close>

definition vtfs_rmdir :: "heap \<Rightarrow> addr option \<Rightarrow> addr option \<Rightarrow> ((errno + unit) \<times> heap) option" where
  "vtfs_rmdir h parent_node node =
     (case (parent_node, node) of
        (Some p, Some nd) \<Rightarrow>
          (case h nd of
             None \<Rightarrow> Some (Inl Oops, h)
           | Some n \<Rightarrow>
               if \<not> is_dir n then Some (Inl ENOTDIR, h)
               else if first_child n \<noteq> None then Some (Inl ENOTEMPTY, h)
               else
                 (case h p of
                    None \<Rightarrow> Some (Inl Oops, h)
                  | Some pn \<Rightarrow>
                      (case detach_loop h p nd None (first_child pn) of
                         None \<Rightarrow> None
                       | Some (Inl e) \<Rightarrow> Some (Inl e, h)
                       | Some (Inr (h', None)) \<Rightarrow> Some (Inl ENOENT, h')
                       | Some (Inr (h', Some c)) \<Rightarrow> Some (Inr (), h'))))
      | _ \<Rightarrow> Some (Inl EINVAL, h))"

text \<open>\<open>vtfs_link\<close>. \<open>old_inode\<close> is the inode of the existing entry, \<open>parent_node\<close> is
  \<open>dir->i_private\<close>, \<open>nm\<close> the new name. On success the result is the alias node.\<close>

definition vtfs_link :: "heap \<Rightarrow> inode \<Rightarrow> addr option \<Rightarrow> string \<Rightarrow> tenv \<Rightarrow> (errno + addr) \<times> heap" where
  "vtfs_link h old_inode parent_node nm env =
     (case (i_private old_inode, parent_node) of
        (Some old_node, Some p) \<Rightarrow>
          if S_ISDIR (i_mode old_inode) then (Inl EPERM, h)
          else
            (case h old_node of
               None \<Rightarrow> (Inl Oops, h)
             | Some on \<Rightarrow>
                 (let data_node = (case link_target on of Some t \<Rightarrow> t | None \<Rightarrow> old_node)
                  in case kzalloc_ret env of
                       None \<Rightarrow> (Inl ENOMEM, h)
                     | Some new_node \<Rightarrow>
                         (let h0 = h(new_node \<mapsto> zero_node);
                              h1 = store h0 new_node (\<lambda>n. n\<lparr>name := strscpy nm VTFS_FILE_NAME_LEN\<rparr>)
                          in case h1 old_node of
                               None \<Rightarrow> (Inl Oops, h1)
                             | Some o1 \<Rightarrow>
                                 (let h2 = store h1 new_node
                                             (\<lambda>n. n\<lparr>ino := ino o1, is_dir := False, mode := mode o1,
                                                     parent := Some p, link_target := Some data_node\<rparr>)
                                  in case h2 p of
                                       None \<Rightarrow> (Inl Oops, h2)
                                     | Some pn \<Rightarrow>
                                         (let h3 = store h2 new_node
                                                     (\<lambda>n. n\<lparr>next_sibling := first_child pn\<rparr>);
                                              h4 = store h3 p (\<lambda>n. n\<lparr>first_child := Some new_node\<rparr>)
                                          in (Inr new_node, h4))))))
      | _ \<Rightarrow> (Inl EINVAL, h))"

subsection \<open>vtfs_dir.c\<close>

text \<open>A directory entry as passed to \<open>dir_emit\<close>: name (of \<open>namelen\<close> bytes), inode number,
  type.\<close>

record dirent =
  d_name :: string
  d_ino :: nat
  d_type :: nat

text \<open>The caller of \<open>vtfs_iterate\<close> takes entries until its buffer is full: \<open>room\<close> is the
  number of entries it still accepts, so \<open>dir_emit\<close> fails exactly when \<open>room\<close> is 0.
  \<open>dir_emit_dots\<close> emits \<open>.\<close> at position 0 and \<open>..\<close> at position 1 (\<open>pino\<close> is the parent
  directory's inode number, known to the dentry cache); it yields whether both went
  through, the entries emitted, the position and the room left.\<close>

definition dir_emit_dots :: "inode \<Rightarrow> nat \<Rightarrow> int \<Rightarrow> nat \<Rightarrow> bool \<times> dirent list \<times> int \<times> nat" where
  "dir_emit_dots dir pino pos room =
     (if pos = 0 then
        (if room = 0 then (False, [], pos, room)
         else if room = 1 then
           (False, [\<lparr>d_name = ''.'', d_ino = i_ino dir, d_type = DT_DIR\<rparr>], 1, 0)
         else (True, [\<lparr>d_name = ''.'', d_ino = i_ino dir, d_type = DT_DIR\<rparr>,
                      \<lparr>d_name = ''..'', d_ino = pino, d_type = DT_DIR\<rparr>], 2, room - 2))
      else if pos = 1 then
        (if room = 0 then (False, [], pos, room)
         else (True, [\<lparr>d_name = ''..'', d_ino = pino, d_type = DT_DIR\<rparr>], 2, room - 1))
      else (True, [], pos, room))"

text \<open>The entry \<open>vtfs_iterate\<close> emits for a child.\<close>

definition entry_of :: "vtfs_node \<Rightarrow> dirent" where
  "entry_of child =
     \<lparr>d_name = take (strnlen (name child) VTFS_FILE_NAME_LEN) (name child),
      d_ino = ino child,
      d_type = (if is_dir child then DT_DIR else DT_REG)\<rparr>"

text \<open>The first loop of \<open>vtfs_iterate\<close>: \<open>while (child && idx > 0)\<close>.\<close>

fun skip_children :: "heap \<Rightarrow> addr option \<Rightarrow> nat \<Rightarrow> errno + addr option" where
  "skip_children h child 0 = Inr child"
| "skip_children h None (Suc idx) = Inr None"
| "skip_children h (Some c) (Suc idx) =
     (case h c of None \<Rightarrow> Inl Oops | Some n \<Rightarrow> skip_children h (next_sibling n) idx)"

text \<open>The second loop: entries are emitted until the chain ends or \<open>dir_emit\<close> fails; the
  result is the entries emitted and the final \<open>ctx->pos\<close>.\<close>

fun emit_children :: "heap \<Rightarrow> addr option \<Rightarrow> nat \<Rightarrow> int \<Rightarrow> errno + dirent list \<times> int" where
  "emit_children h None room pos = Inr ([], pos)"
| "emit_children h (Some c) room pos =
     (case h c of
        None \<Rightarrow> Inl Oops
      | Some n \<Rightarrow>
          (case room of
             0 \<Rightarrow> Inr ([], pos)
           | Suc r \<Rightarrow>
               (case emit_children h (next_sibling n) r (to_loff (pos + 1)) of
                  Inl e \<Rightarrow> Inl e
                | Inr (es, p) \<Rightarrow> Inr (entry_of n # es, p))))"

text \<open>\<open>vtfs_iterate\<close>: \<open>dir\<close> is the directory's inode, \<open>pos\<close> is \<open>ctx->pos\<close> on entry. The
  result is the entries emitted by this call and \<open>ctx->pos\<close> on return.\<close>

definition vtfs_iterate :: "heap \<Rightarrow> inode \<Rightarrow> nat \<Rightarrow> int \<Rightarrow> nat \<Rightarrow> errno + dirent list \<times> int" where
  "vtfs_iterate h dir pino pos room =
     (if \<not> S_ISDIR (i_mode dir) then Inl ENOTDIR
      else
        (case i_private dir of
           None \<Rightarrow> Inl EINVAL
         | Some dir_node \<Rightarrow>
             (case dir_emit_dots dir pino pos room of
                (False, es, pos1, room1) \<Rightarrow> Inr (es, pos1)
              | (True, es, pos1, room1) \<Rightarrow>
                  (let idx = nat ((pos1 - 2) mod 2 ^ 32)
                   in case h dir_node of
                        None \<Rightarrow> Inl Oops
                      | Some dn \<Rightarrow>
                          (case skip_children h (first_child dn) idx of
                             Inl e \<Rightarrow> Inl e
                           | Inr child \<Rightarrow>
                               (case emit_children h child room1 pos1 of
                                  Inl e \<Rightarrow> Inl e
                                | Inr (es2, pos2) \<Rightarrow> Inr (es @ es2, pos2)))))))"

subsection \<open>Sibling chains\<close>

text \<open>\<open>chain h p xs\<close>: following \<open>next_sibling\<close> from the pointer \<open>p\<close> visits exactly the nodes
  \<open>xs\<close>, in this order, and then reaches \<open>NULL\<close>. \<open>children_of h d xs\<close>: the directory at \<open>d\<close>
  has the child list \<open>xs\<close>.\<close>

fun chain :: "heap \<Rightarrow> addr option \<Rightarrow> addr list \<Rightarrow> bool" where
  "chain h p [] = (p = None)"
| "chain h p (x # xs) =
     (p = Some x \<and> (case h x of None \<Rightarrow> False | Some n \<Rightarrow> chain h (next_sibling n) xs))"

definition children_of :: "heap \<Rightarrow> addr \<Rightarrow> addr list \<Rightarrow> bool" where
  "children_of h d xs = (case h d of None \<Rightarrow> False | Some dn \<Rightarrow> chain h (first_child dn) xs)"

text \<open>The stored name of the node at an address (empty if there is none).\<close>

definition name_at :: "heap \<Rightarrow> addr \<Rightarrow> string" where
  "name_at h a = (case h a of None \<Rightarrow> [] | Some n \<Rightarrow> name n)"

subsection \<open>Well-formed buffers\<close>

text \<open>The buffer invariant of a node: \<open>size \<le> capacity\<close>, the capacity fits \<open>size_t\<close>, and
  \<open>data\<close> is an allocation of exactly \<open>capacity\<close> bytes (\<open>NULL\<close> when the capacity is 0).
  \<open>vtfs_alloc_node\<close> establishes it and \<open>vtfs_write\<close> keeps it.\<close>

definition buf_ok :: "vtfs_node \<Rightarrow> bool" where
  "buf_ok n \<longleftrightarrow>
     size_f n \<le> capacity n \<and> capacity n \<le> SIZE_MAX \<and>
     (case data n of None \<Rightarrow> capacity n = 0 | Some bs \<Rightarrow> length bs = capacity n)"

definition bytes_of :: "vtfs_node \<Rightarrow> byte list" where
  "bytes_of n = (case data n of None \<Rightarrow> [] | Some bs \<Rightarrow> bs)"

text \<open>A buffer whose bytes from \<open>sz\<close> up to \<open>pos\<close> have been cleared.\<close>

definition hole_filled :: "nat \<Rightarrow> byte list \<Rightarrow> nat \<Rightarrow> byte list" where
  "hole_filled sz bs0 pos =
     (if pos > sz then take sz bs0 @ replicate (pos - sz) 0 @ drop pos bs0 else bs0)"

text \<open>Example states for the closed instances below: an empty regular file as
  \<open>vtfs_alloc_node\<close> leaves it, and surroundings in which nothing fails.\<close>

definition empty_file :: vtfs_node where
  "empty_file = \<lparr>name = ''f'', ino = 2, is_dir = False, mode = 0x81A4, parent = Some 0,
     first_child = None, next_sibling = None, link_target = None, data = None, size_f = 0,
     capacity = 0\<rparr>"

definition env_ok :: wenv where
  "env_ok = \<lparr>krealloc_ok = True, junk = (\<lambda>_. 0xAA), copy1 = 2 ^ 64, copy2 = 2 ^ 64\<rparr>"

definition env_short :: wenv where
  "env_short = \<lparr>krealloc_ok = True, junk = (\<lambda>_. 0xAA), copy1 = 1, copy2 = 1\<rparr>"

definition env_nomem :: wenv where
  "env_nomem = \<lparr>krealloc_ok = False, junk = (\<lambda>_. 0xAA), copy1 = 2 ^ 64, copy2 = 2 ^ 64\<rparr>"

definition heap1 :: heap where
  "heap1 = [1 \<mapsto> empty_file]"

definition detached :: "heap \<Rightarrow> addr \<Rightarrow> addr \<Rightarrow> addr option \<Rightarrow> vtfs_node \<Rightarrow> heap" where
  "detached h p nd prev n =
     store (case prev of
              Some pv \<Rightarrow> store h pv (\<lambda>m. m\<lparr>next_sibling := next_sibling n\<rparr>)
            | None \<Rightarrow> store h p (\<lambda>m. m\<lparr>first_child := next_sibling n\<rparr>))
       nd (\<lambda>m. m\<lparr>parent := None, next_sibling := None\<rparr>)"

text \<open>A root directory at address 0 with two regular files, both named \<open>f\<close>, at
  addresses 2 and 1 (in list order), its file system record, and surroundings in which
  \<open>kzalloc\<close> returns the unused address 3 and \<open>new_inode\<close> succeeds or fails.\<close>

definition root_dir :: vtfs_node where
  "root_dir = zero_node\<lparr>name := ''/'', ino := 1, is_dir := True, mode := 0x41FF,
     first_child := Some 2\<rparr>"

definition file_b :: vtfs_node where
  "file_b = empty_file\<lparr>ino := 3, next_sibling := Some 1\<rparr>"

definition heap2 :: heap where
  "heap2 = [0 \<mapsto> root_dir, 1 \<mapsto> empty_file, 2 \<mapsto> file_b]"

definition fs2 :: vtfs_fs where
  "fs2 = \<lparr>root = Some 0, next_ino = 4\<rparr>"

definition tenv_ok :: tenv where
  "tenv_ok = \<lparr>kzalloc_ret = Some 3, new_inode_ok = True\<rparr>"

definition tenv_no_inode :: tenv where
  "tenv_no_inode = \<lparr>kzalloc_ret = Some 3, new_inode_ok = False\<rparr>"

subsection \<open>Directory listing\<close>

text \<open>The entry emitted for the node at an address, and the complete listing of a directory
  with child list \<open>cs\<close>: \<open>.\<close>, \<open>..\<close>, then one entry per child.\<close>

definition dirent_at :: "heap \<Rightarrow> addr \<Rightarrow> dirent" where
  "dirent_at h a = (case h a of None \<Rightarrow> entry_of zero_node | Some n \<Rightarrow> entry_of n)"

definition listing :: "heap \<Rightarrow> inode \<Rightarrow> nat \<Rightarrow> addr list \<Rightarrow> dirent list" where
  "listing h dir pino cs =
     [\<lparr>d_name = ''.'', d_ino = i_ino dir, d_type = DT_DIR\<rparr>,
      \<lparr>d_name = ''..'', d_ino = pino, d_type = DT_DIR\<rparr>] @ map (dirent_at h) cs"

text \<open>A directory with \<open>N\<close> regular files at the addresses 1 to \<open>N\<close>, in this order.\<close>

definition many_files :: "nat \<Rightarrow> heap" where
  "many_files N =
     (\<lambda>a. if a = 0 then
             Some (zero_node\<lparr>name := ''/'', ino := 1, is_dir := True, mode := 0x41FF,
                             first_child := (if N = 0 then None else Some 1)\<rparr>)
           else if a \<le> N then
             Some (zero_node\<lparr>name := ''f'', ino := a + 1, mode := 0x81A4, parent := Some 0,
                             next_sibling := (if a < N then Some (a + 1) else None)\<rparr>)
           else None)"

definition root_inode :: inode where
  "root_inode = \<lparr>i_ino = 1, i_mode = 0x41FF, i_private = Some 0\<rparr>"

subsection \<open>Hard links\<close>

text \<open>Aliases never chain: whatever a node's \<open>link_target\<close> points at is a node that has no
  \<open>link_target\<close> of its own.\<close>

definition aliases_flat :: "heap \<Rightarrow> bool" where
  "aliases_flat h \<longleftrightarrow>
     (\<forall>a n t. h a = Some n \<and> link_target n = Some t \<longrightarrow>
        (\<exists>m. h t = Some m \<and> link_target m = None))"

text \<open>A root directory whose children are an alias (address 2, named \<open>g\<close>) of the empty
  file at address 1 and that file; the inode of the alias; the store after \<open>vtfs_link\<close> has
  added a second alias \<open>h\<close> at address 3; and that store after two bytes were written.\<close>

definition alias_g :: vtfs_node where
  "alias_g = zero_node\<lparr>name := ''g'', ino := 2, mode := 0x81A4, parent := Some 0,
     next_sibling := Some 1, link_target := Some 1\<rparr>"

definition heap3 :: heap where
  "heap3 = [0 \<mapsto> root_dir, 1 \<mapsto> empty_file, 2 \<mapsto> alias_g]"

definition alias_inode :: inode where
  "alias_inode = \<lparr>i_ino = 2, i_mode = 0x81A4, i_private = Some 2\<rparr>"

definition heap3_linked :: heap where
  "heap3_linked =
     heap3(3 \<mapsto> zero_node\<lparr>name := strscpy ''h'' VTFS_FILE_NAME_LEN, ino := ino alias_g,
                            is_dir := False, mode := mode alias_g, parent := Some 0,
                            link_target := Some 1, next_sibling := first_child root_dir\<rparr>,
           0 \<mapsto> root_dir\<lparr>first_child := Some 3\<rparr>)"

definition heap3_written :: heap where
  "heap3_written =
     heap3_linked(1 \<mapsto> empty_file\<lparr>data := Some ([72, 105] @ replicate 4094 0), size_f := 2,
                                   capacity := 4096\<rparr>)"

section \<open>Properties\<close>

subsection \<open>The capacity loop\<close>

lemma grow_loop_eq:
  "0 < c \<Longrightarrow> e \<le> c * 2 ^ k \<Longrightarrow> \<forall>j<k. c * 2 ^ j < e \<Longrightarrow>
   grow_loop c e = Some (if k = 0 \<or> c * 2 ^ (k - 1) \<le> SIZE_MAX div 2 then Inr (c * 2 ^ k) else Inl EFBIG)"
proof (induction k arbitrary: c)
  case 0
  then show ?case by (subst grow_loop.simps) simp
next
  case (Suc k)
  from Suc.prems(3) have lt: "c < e" by force
  show ?case
  proof (cases "c > SIZE_MAX div 2")
    case True
    have "c \<le> c * 2 ^ k" by simp
    with True have "\<not> c * 2 ^ k \<le> SIZE_MAX div 2" by linarith
    with True lt show ?thesis by (subst grow_loop.simps) simp
  next
    case False
    have a: "0 < c * 2" using Suc.prems(1) by simp
    have b: "e \<le> c * 2 * 2 ^ k" using Suc.prems(2) by (simp add: mult.assoc)
    have c: "\<forall>j<k. c * 2 * 2 ^ j < e"
    proof (intro allI impI)
      fix j assume "j < k"
      then have "c * 2 ^ Suc j < e" using Suc.prems(3) by (meson Suc_less_eq)
      then show "c * 2 * 2 ^ j < e" by (simp add: mult.assoc)
    qed
    have ih: "grow_loop (c * 2) e =
      Some (if k = 0 \<or> c * 2 * 2 ^ (k - 1) \<le> SIZE_MAX div 2 then Inr (c * 2 * 2 ^ k) else Inl EFBIG)"
      by (rule Suc.IH [OF a b c])
    show ?thesis
    proof (cases k)
      case 0
      with False lt ih show ?thesis by (subst grow_loop.simps) simp
    next
      case (Suc m)
      with False lt ih show ?thesis by (subst grow_loop.simps) (simp add: mult.assoc)
    qed
  qed
qed

lemma doubling_reaches: "0 < (c::nat) \<Longrightarrow> \<exists>k. e \<le> c * 2 ^ k \<and> (\<forall>j<k. c * 2 ^ j < e)"
proof -
  assume c: "0 < c"
  have "e < 2 ^ e" by (rule less_exp)
  then have ex: "e \<le> c * 2 ^ e" using c
    by (metis One_nat_def Suc_leI le_trans less_or_eq_imp_le mult.commute mult_le_mono2 nat_mult_1_right)
  define k where "k = (LEAST k. e \<le> c * 2 ^ k)"
  have "e \<le> c * 2 ^ k" unfolding k_def by (rule LeastI [of "\<lambda>k. e \<le> c * 2 ^ k", OF ex])
  moreover have "\<forall>j<k. c * 2 ^ j < e"
    using not_less_Least [of _ "\<lambda>k. e \<le> c * 2 ^ k"] unfolding k_def by (meson not_le)
  ultimately show ?thesis by blast
qed

lemma grow_loop_terminates: "0 < c \<Longrightarrow> \<exists>r. grow_loop c e = Some r"
  using doubling_reaches [of c e] grow_loop_eq [of c e] by blast

declare grow_loop.simps [code]

lemma length_bytes_of: "buf_ok n \<Longrightarrow> length (bytes_of n) = capacity n"
  by (auto simp: buf_ok_def bytes_of_def split: option.splits)

lemma grow_buffer_eq:
  assumes ok: "buf_ok node" and gt: "capacity node < e"
    and c0: "c0 = (if capacity node = 0 then PAGE_SIZE else capacity node)"
    and k1: "e \<le> c0 * 2 ^ k" and k2: "\<forall>j<k. c0 * 2 ^ j < e"
  shows "grow_buffer node e env =
     Some (if SIZE_MAX < c0 * 2 ^ k then Inl EFBIG
           else if \<not> krealloc_ok env then Inl ENOMEM
           else Inr (node\<lparr>data := Some (bytes_of node @ replicate (c0 * 2 ^ k - capacity node) 0),
                          capacity := c0 * 2 ^ k\<rparr>))"
proof -
  have pos: "0 < c0" using c0 by (simp add: PAGE_SIZE_def)
  have le: "c0 \<le> SIZE_MAX" using c0 ok by (auto simp: PAGE_SIZE_def SIZE_MAX_def buf_ok_def)
  have cond: "(k = 0 \<or> c0 * 2 ^ (k - 1) \<le> SIZE_MAX div 2) \<longleftrightarrow> c0 * 2 ^ k \<le> SIZE_MAX"
  proof (cases k)
    case 0
    then show ?thesis using le by simp
  next
    case (Suc m)
    then show ?thesis by (auto simp: SIZE_MAX_def)
  qed
  have loop: "grow_loop c0 e = Some (if c0 * 2 ^ k \<le> SIZE_MAX then Inr (c0 * 2 ^ k) else Inl EFBIG)"
    using grow_loop_eq [OF pos k1 k2] cond by simp
  have capc0: "capacity node \<le> c0" using c0 by simp
  have "c0 \<le> c0 * 2 ^ k" by simp
  with capc0 have capk: "capacity node \<le> c0 * 2 ^ k" by linarith
  have lt: "capacity node < c0 * 2 ^ k" using gt k1 by linarith
  have len: "length (bytes_of node) = capacity node" by (rule length_bytes_of [OF ok])
  have kr: "krealloc (data node) (c0 * 2 ^ k) True (junk env) =
      Some (bytes_of node @ map (junk env) [capacity node..<c0 * 2 ^ k])"
    using len capk by (simp add: krealloc_def bytes_of_def)
  have ms: "memset (bytes_of node @ map (junk env) [capacity node..<c0 * 2 ^ k]) (capacity node) 0
              (c0 * 2 ^ k - capacity node) = bytes_of node @ replicate (c0 * 2 ^ k - capacity node) 0"
    using len capk by (simp add: memset_def)
  show ?thesis
  proof (cases "SIZE_MAX < c0 * 2 ^ k")
    case True
    then show ?thesis using gt loop c0 by (simp add: grow_buffer_def)
  next
    case False
    show ?thesis
    proof (cases "krealloc_ok env")
      case True
      with False gt loop c0 kr ms lt show ?thesis
        by (simp add: grow_buffer_def)
    next
      case nok: False
      then have "krealloc (data node) (c0 * 2 ^ k) (krealloc_ok env) (junk env) = None"
        by (simp add: krealloc_def)
      with False gt loop c0 nok show ?thesis
        by (simp add: grow_buffer_def)
    qed
  qed
qed


lemma length_hole_filled:
  "sz \<le> length bs0 \<Longrightarrow> pos \<le> length bs0 \<Longrightarrow> length (hole_filled sz bs0 pos) = length bs0"
  by (simp add: hole_filled_def)

lemma copy_from_user_fst:
  "fst (copy_from_user dst off src a) =
     take off dst @ (take (min a (length src)) src @ replicate (length src - min a (length src)) 0)
       @ drop (off + length src) dst"
  by (simp add: copy_from_user_def Let_def)

lemma copy_from_user_snd:
  "snd (copy_from_user dst off src a) = length src - min a (length src)"
  by (simp add: copy_from_user_def Let_def)

lemma overwrite_twice:
  assumes "off + n \<le> length dst" and "length xs = n" and "length ys = n"
  shows "take off (take off dst @ xs @ drop (off + n) dst) @ ys
           @ drop (off + n) (take off dst @ xs @ drop (off + n) dst)
         = take off dst @ ys @ drop (off + n) dst"
proof -
  have a: "length (take off dst) = off" using assms by simp
  have "take off (take off dst @ xs @ drop (off + n) dst) = take off dst"
    using a by simp
  moreover have "drop (off + n) (take off dst @ xs @ drop (off + n) dst) = drop (off + n) dst"
    using a assms(2) by simp
  ultimately show ?thesis by simp
qed

lemma copy_twice:
  assumes "off + length src \<le> length dst"
  shows "fst (copy_from_user (fst (copy_from_user dst off src a)) off src b) =
         fst (copy_from_user dst off src b)"
  unfolding copy_from_user_fst
  by (rule overwrite_twice [OF assms]) simp_all

lemma copy_in_eq:
  assumes d: "data node = Some bs0" and fit: "pos + length buf \<le> length bs0"
    and sz: "size_f node \<le> length bs0"
    and m: "m = (if length buf \<le> copy1 env then length buf else min (copy2 env) (length buf))"
    and bs1: "bs1 = hole_filled (size_f node) bs0 pos"
  shows "copy_in node pos buf env =
     ((if m = length buf then Inr (length buf) else if m \<noteq> 0 then Inr m else Inl EFAULT),
      node\<lparr>data := Some (take pos bs1 @ take m buf @ replicate (length buf - m) 0
                           @ drop (pos + length buf) bs1),
           size_f := max (size_f node) (pos + m)\<rparr>,
      m)"
proof -
  have l1: "length bs1 = length bs0" using bs1 sz fit by (simp add: length_hole_filled)
  have mem: "(if pos > size_f node then memset bs0 (size_f node) 0 (pos - size_f node) else bs0) = bs1"
    using bs1 by (simp add: hole_filled_def memset_def)
  have fit1: "pos + length buf \<le> length bs1" using l1 fit by simp
  note tw = copy_twice [OF fit1]
  show ?thesis
  proof (cases "length buf \<le> copy1 env")
    case True
    then show ?thesis using d m mem
      by (simp add: copy_in_def Let_def copy_from_user_def max_def)
  next
    case False
    have f2: "fst (copy_from_user (fst (copy_from_user bs1 pos buf (copy1 env))) pos buf (copy2 env))
       = take pos bs1 @ take (min (copy2 env) (length buf)) buf @
         replicate (length buf - min (copy2 env) (length buf)) 0 @ drop (pos + length buf) bs1"
      unfolding tw by (simp add: copy_from_user_fst)
    have s2: "snd (copy_from_user (fst (copy_from_user bs1 pos buf (copy1 env))) pos buf (copy2 env))
       = length buf - min (copy2 env) (length buf)"
      by (simp add: copy_from_user_snd)
    have s1: "snd (copy_from_user bs1 pos buf (copy1 env)) \<noteq> 0"
      using False by (simp add: copy_from_user_snd)
    obtain x1 y1 where c1: "copy_from_user bs1 pos buf (copy1 env) = (x1, y1)" by force
    obtain x2 y2 where c2: "copy_from_user x1 pos buf (copy2 env) = (x2, y2)" by force
    from c1 s1 have y1: "y1 \<noteq> 0" by simp
    from c1 c2 f2 have x2: "x2 = take pos bs1 @ take (min (copy2 env) (length buf)) buf @
         replicate (length buf - min (copy2 env) (length buf)) 0 @ drop (pos + length buf) bs1" by simp
    from c1 c2 s2 have y2: "y2 = length buf - min (copy2 env) (length buf)" by simp
    have mm: "m = min (copy2 env) (length buf)" using m False by simp
    have ci: "copy_in node pos buf env =
       (if y2 \<noteq> 0 then
          ((if length buf - y2 \<noteq> 0 then Inr (length buf - y2) else Inl EFAULT),
           node\<lparr>data := Some x2,
                size_f := (if pos + (length buf - y2) > size_f node
                           then pos + (length buf - y2) else size_f node)\<rparr>,
           length buf - y2)
        else (Inr (length buf),
              node\<lparr>data := Some x2,
                   size_f := (if pos + length buf > size_f node then pos + length buf
                              else size_f node)\<rparr>,
              length buf))"
      using d mem c1 c2 y1 by (simp add: copy_in_def Let_def)
    have w: "length buf - y2 = m" using y2 mm by simp
    show ?thesis
    proof (cases "y2 = 0")
      case True
      then have "m = length buf" using w by simp
      then show ?thesis using ci True x2 mm by (simp add: max_def)
    next
      case nz: False
      then have "m < length buf" using y2 mm by simp
      then show ?thesis using ci nz x2 w mm by (simp add: max_def)
    qed
  qed
qed

lemma upd_reorder:
  "(n::vtfs_node)\<lparr>capacity := c, data := d, size_f := s\<rparr> = n\<lparr>data := d, size_f := s, capacity := c\<rparr>"
  by (cases n) simp

lemma vtfs_write_eq:
  assumes res: "vtfs_data_node h priv = Inr d" and hd: "h d = Some node"
    and nd: "\<not> is_dir node" and ok: "buf_ok node"
    and pos: "pos = (if o_append then to_loff (int (size_f node)) else ppos)"
    and p0: "0 \<le> pos" and len: "0 < length buf"
    and e: "e = nat pos + length buf" and fit: "e \<le> SIZE_MAX"
    and c0: "c0 = (if capacity node = 0 then PAGE_SIZE else capacity node)"
    and k1: "e \<le> c0 * 2 ^ k" and k2: "\<forall>j<k. c0 * 2 ^ j < e"
    and nc: "newcap = (if capacity node < e then c0 * 2 ^ k else capacity node)"
    and m: "m = (if length buf \<le> copy1 env then length buf else min (copy2 env) (length buf))"
    and bs1: "bs1 = hole_filled (size_f node) (bytes_of node @ replicate (newcap - capacity node) 0) (nat pos)"
  shows "vtfs_write h priv o_append ppos buf env =
     Some (if capacity node < e \<and> SIZE_MAX < newcap then (Inl EFBIG, h, ppos)
           else if capacity node < e \<and> \<not> krealloc_ok env then (Inl ENOMEM, h, ppos)
           else ((if m = length buf then Inr (length buf) else if m \<noteq> 0 then Inr m else Inl EFAULT),
                 h(d \<mapsto> node\<lparr>data := Some (take (nat pos) bs1 @ take m buf
                                   @ replicate (length buf - m) 0 @ drop e bs1),
                               size_f := max (size_f node) (nat pos + m),
                               capacity := newcap\<rparr>),
                 to_loff (pos + int m)))"
proof -
  have chk: "\<not> pos > int SIZE_MAX" "\<not> length buf > SIZE_MAX - nat pos"
    using fit e p0 by auto
  have w: "vtfs_write h priv o_append ppos buf env =
      (case grow_buffer node e env of
         None \<Rightarrow> None
       | Some (Inl er) \<Rightarrow> Some (Inl er, h, ppos)
       | Some (Inr node1) \<Rightarrow>
           (case copy_in node1 (nat pos) buf env of
              (ret, node2, moved) \<Rightarrow> Some (ret, h(d \<mapsto> node2), to_loff (pos + int moved))))"
  proof -
    have pos': "(if o_append then to_loff (int (size_f node)) else ppos) = pos" using pos by simp
    show ?thesis
    proof (cases o_append)
      case True
      with pos have "pos = to_loff (int (size_f node))" by simp
      with True res hd nd p0 len chk e show ?thesis by (simp add: vtfs_write_def Let_def cong: option.case_cong sum.case_cong prod.case_cong)
    next
      case False
      with pos have "pos = ppos" by simp
      with False res hd nd p0 len chk e show ?thesis by (simp add: vtfs_write_def Let_def cong: option.case_cong sum.case_cong prod.case_cong)
    qed
  qed
  have lb: "length (bytes_of node) = capacity node" by (rule length_bytes_of [OF ok])
  have szc: "size_f node \<le> capacity node" using ok by (simp add: buf_ok_def)
  show ?thesis
  proof (cases "capacity node < e")
    case True
    note gb = grow_buffer_eq [OF ok True c0 k1 k2, of env]
    have nc': "newcap = c0 * 2 ^ k" using nc True by simp
    show ?thesis
    proof (cases "SIZE_MAX < c0 * 2 ^ k \<or> \<not> krealloc_ok env")
      case True
      then show ?thesis using w gb \<open>capacity node < e\<close> nc' by auto
    next
      case False
      define node1 where "node1 = node\<lparr>data := Some (bytes_of node @ replicate (c0 * 2 ^ k - capacity node) 0),
                          capacity := c0 * 2 ^ k\<rparr>"
      have g: "grow_buffer node e env = Some (Inr node1)" using gb False by (simp add: node1_def)
      have capk: "capacity node \<le> c0 * 2 ^ k" using True k1 by linarith
      have d1: "data node1 = Some (bytes_of node @ replicate (newcap - capacity node) 0)"
        by (simp add: node1_def nc')
      have f1: "nat pos + length buf \<le> length (bytes_of node @ replicate (newcap - capacity node) 0)"
        using lb capk k1 e nc' by simp
      have s1: "size_f node1 \<le> length (bytes_of node @ replicate (newcap - capacity node) 0)"
        using lb capk szc nc' by (simp add: node1_def)
      have b1: "bs1 = hole_filled (size_f node1) (bytes_of node @ replicate (newcap - capacity node) 0) (nat pos)"
        using bs1 by (simp add: node1_def)
      note ci = copy_in_eq [OF d1 f1 s1 m b1]
      show ?thesis using w g ci False True nc' e by (simp add: node1_def upd_reorder)
    qed
  next
    case False
    then have g: "grow_buffer node e env = Some (Inr node)" by (simp add: grow_buffer_def)
    have nc': "newcap = capacity node" using nc False by simp
    have cpos: "0 < capacity node" using False e len by linarith
    then obtain bs where d0: "data node = Some bs" using ok by (auto simp: buf_ok_def split: option.splits)
    then have bo: "bytes_of node = bs" by (simp add: bytes_of_def)
    have d1: "data node = Some (bytes_of node @ replicate (newcap - capacity node) 0)"
      using d0 bo nc' by simp
    have f1: "nat pos + length buf \<le> length (bytes_of node @ replicate (newcap - capacity node) 0)"
      using lb False e nc' by simp
    have s1: "size_f node \<le> length (bytes_of node @ replicate (newcap - capacity node) 0)"
      using lb szc nc' by simp
    note ci = copy_in_eq [OF d1 f1 s1 m bs1]
    show ?thesis using w g ci False nc' e by simp
  qed
qed

lemma to_loff_id: "0 \<le> x \<Longrightarrow> x < 2 ^ 63 \<Longrightarrow> to_loff x = x"
  by (simp add: to_loff_def)

lemma vtfs_data_node_upd:
  assumes "vtfs_data_node h priv = Inr d" and "h d = Some node"
    and "link_target node' = link_target node"
  shows "vtfs_data_node (h(d \<mapsto> node')) priv = Inr d"
  using assms by (auto simp: vtfs_data_node_def split: option.splits)

lemma write_success_facts:
  assumes res: "vtfs_data_node h priv = Inr d" and hd: "h d = Some node"
    and pos: "pos = (if o_append then to_loff (int (size_f node)) else ppos)"
    and w: "vtfs_write h priv o_append ppos buf env = Some (Inr n, h', ppos')"
  shows "\<not> is_dir node" and "0 \<le> pos" and "0 < length buf \<Longrightarrow> nat pos + length buf \<le> SIZE_MAX"
    and "length buf = 0 \<Longrightarrow> h' = h \<and> n = 0"
proof -
  show a: "\<not> is_dir node" using res hd w by (auto simp: vtfs_write_def)
  show b: "0 \<le> pos" using res hd w a pos
    by (cases o_append) (auto simp: vtfs_write_def Let_def split: if_splits)
  show "length buf = 0 \<Longrightarrow> h' = h \<and> n = 0" using res hd w a b pos
    by (cases o_append) (auto simp: vtfs_write_def Let_def split: if_splits)
  show "0 < length buf \<Longrightarrow> nat pos + length buf \<le> SIZE_MAX"
  proof (rule ccontr)
    assume l: "0 < length buf" and "\<not> nat pos + length buf \<le> SIZE_MAX"
    then have "int SIZE_MAX < pos \<or> SIZE_MAX - nat pos < length buf" by linarith
    then show False using res hd w a b pos l
      by (cases o_append) (auto simp: vtfs_write_def Let_def split: if_splits)
  qed
qed

lemma write_full_state:
  assumes res: "vtfs_data_node h priv = Inr d" and hd: "h d = Some node" and ok: "buf_ok node"
    and pos: "pos = (if o_append then to_loff (int (size_f node)) else ppos)"
    and len: "0 < length buf"
    and w: "vtfs_write h priv o_append ppos buf env = Some (Inr (length buf), h', ppos')"
  shows "\<exists>newcap bs1. capacity node \<le> newcap \<and> nat pos + length buf \<le> newcap \<and> newcap \<le> SIZE_MAX \<and>
           bs1 = hole_filled (size_f node) (bytes_of node @ replicate (newcap - capacity node) 0) (nat pos) \<and>
           h' = h(d \<mapsto> node\<lparr>data := Some (take (nat pos) bs1 @ buf @ drop (nat pos + length buf) bs1),
                               size_f := max (size_f node) (nat pos + length buf),
                               capacity := newcap\<rparr>)"
proof -
  note f = write_success_facts [OF res hd pos w]
  define e where "e = nat pos + length buf"
  define c0 where "c0 = (if capacity node = 0 then PAGE_SIZE else capacity node)"
  have "0 < c0" by (simp add: c0_def PAGE_SIZE_def)
  then obtain k where k1: "e \<le> c0 * 2 ^ k" and k2: "\<forall>j<k. c0 * 2 ^ j < e"
    using doubling_reaches [of c0 e] by blast
  define newcap where "newcap = (if capacity node < e then c0 * 2 ^ k else capacity node)"
  define m where "m = (if length buf \<le> copy1 env then length buf else min (copy2 env) (length buf))"
  define bs1 where "bs1 = hole_filled (size_f node) (bytes_of node @ replicate (newcap - capacity node) 0) (nat pos)"
  have fit: "e \<le> SIZE_MAX" using f(3) [OF len] by (simp add: e_def)
  note eq = vtfs_write_eq [OF res hd f(1) ok pos f(2) len e_def fit c0_def k1 k2
      newcap_def m_def bs1_def]
  from w eq have br: "\<not> (capacity node < e \<and> SIZE_MAX < newcap)" "\<not> (capacity node < e \<and> \<not> krealloc_ok env)"
    by (auto split: if_splits)
  from w eq br have mm: "m = length buf" by (auto split: if_splits)
  from w eq br have "(Inr (length buf), h', ppos') =
     ((if m = length buf then Inr (length buf) else if m \<noteq> 0 then Inr m else Inl EFAULT),
                 h(d \<mapsto> node\<lparr>data := Some (take (nat pos) bs1 @ take m buf
                                   @ replicate (length buf - m) 0 @ drop e bs1),
                               size_f := max (size_f node) (nat pos + m),
                               capacity := newcap\<rparr>),
                 to_loff (pos + int m))"
    by (auto split: if_splits)
  with mm have h': "h' = h(d \<mapsto> node\<lparr>data := Some (take (nat pos) bs1 @ buf @ drop e bs1),
                               size_f := max (size_f node) e, capacity := newcap\<rparr>)"
    by (simp add: e_def)
  have c1: "capacity node \<le> newcap" using k1 by (auto simp: newcap_def)
  have c2: "e \<le> newcap" using k1 by (auto simp: newcap_def)
  have c3: "newcap \<le> SIZE_MAX" using br ok by (auto simp: newcap_def buf_ok_def)
  show ?thesis using c1 c2 c3 h' bs1_def unfolding e_def by blast
qed

subsection \<open>Write, then read\<close>

lemma write_read_via:
  assumes res: "vtfs_data_node h priv = Inr d" and res2: "vtfs_data_node h priv2 = Inr d"
    and hd: "h d = Some node" and ok: "buf_ok node"
    and pos: "pos = (if o_append then to_loff (int (size_f node)) else ppos)"
    and w: "vtfs_write h priv o_append ppos buf env = Some (Inr (length buf), h', ppos')"
  shows "fst (vtfs_read h' priv2 pos (length buf) True) = Inr buf"
proof (cases "length buf = 0")
  case True
  note f = write_success_facts [OF res hd pos w]
  from f(4) True have "h' = h" by simp
  with res2 hd f(1) f(2) True show ?thesis
    by (auto simp: vtfs_read_def Let_def split: option.splits)
next
  case False
  then have len: "0 < length buf" by simp
  note f = write_success_facts [OF res hd pos w]
  from write_full_state [OF res hd ok pos len w]
  obtain newcap bs1 where c1: "capacity node \<le> newcap" and c2: "nat pos + length buf \<le> newcap"
    and bs1: "bs1 = hole_filled (size_f node) (bytes_of node @ replicate (newcap - capacity node) 0) (nat pos)"
    and h': "h' = h(d \<mapsto> node\<lparr>data := Some (take (nat pos) bs1 @ buf @ drop (nat pos + length buf) bs1),
                               size_f := max (size_f node) (nat pos + length buf),
                               capacity := newcap\<rparr>)"
    by blast
  have lb: "length (bytes_of node) = capacity node" by (rule length_bytes_of [OF ok])
  have szc: "size_f node \<le> capacity node" using ok by (simp add: buf_ok_def)
  have l1: "length bs1 = newcap" unfolding bs1
    using lb c1 c2 szc by (subst length_hole_filled) auto
  have lt: "length (take (nat pos) bs1) = nat pos" using l1 c2 by simp
  have rd: "take (length buf) (drop (nat pos) (take (nat pos) bs1 @ buf @ drop (nat pos + length buf) bs1)) = buf"
    using lt by simp
  have r: "vtfs_data_node h' priv2 = Inr d" unfolding h'
    by (rule vtfs_data_node_upd [OF res2 hd]) simp
  have mn: "min (max (size_f node) (nat pos + length buf) - nat pos) (length buf) = length buf"
    by simp
  have gt: "\<not> int (max (size_f node) (nat pos + length buf)) \<le> pos"
    using f(2) len by (simp add: max_def) linarith
  have "vtfs_read h' priv2 pos (length buf) True =
     (Inr (take (length buf) (drop (nat pos) (take (nat pos) bs1 @ buf @ drop (nat pos + length buf) bs1))),
      to_loff (pos + int (length buf)))"
    using r f(1) f(2) len gt unfolding vtfs_read_def h' Let_def mn
    by (simp del: take_append drop_append take_drop drop_take)
  then show ?thesis unfolding rd by simp
qed

lemma buf_ok_empty_file: "buf_ok empty_file"
  by (simp add: buf_ok_def empty_file_def)

subsection \<open>The buffer after a write\<close>

lemma overwrite_nth:
  assumes "off + length xs \<le> length dst" and "i < length dst"
  shows "(take off dst @ xs @ drop (off + length xs) dst) ! i =
         (if off \<le> i \<and> i < off + length xs then xs ! (i - off) else dst ! i)"
proof -
  have a: "length (take off dst) = off" using assms by simp
  show ?thesis
  proof (cases "i < off")
    case True
    then show ?thesis using a by (simp add: nth_append)
  next
    case False
    show ?thesis
    proof (cases "i < off + length xs")
      case True
      with False have "i - off < length xs" by linarith
      with True False a show ?thesis by (simp add: nth_append)
    next
      case f2: False
      from f2 have nl: "\<not> i - off < length xs" by linarith
      have "(take off dst @ xs @ drop (off + length xs) dst) ! i
            = drop (off + length xs) dst ! (i - off - length xs)"
        using False f2 a nl by (simp add: nth_append)
      also have "\<dots> = dst ! i" using f2 assms by simp
      finally show ?thesis using f2 by simp
    qed
  qed
qed

lemma hole_filled_nth:
  assumes "sz \<le> length bs0" and "pos \<le> length bs0" and "i < length bs0"
  shows "hole_filled sz bs0 pos ! i = (if sz \<le> i \<and> i < pos then 0 else bs0 ! i)"
proof (cases "sz < pos")
  case True
  have "hole_filled sz bs0 pos = take sz bs0 @ replicate (pos - sz) 0 @ drop (sz + length (replicate (pos - sz) (0::byte))) bs0"
    using True by (simp add: hole_filled_def)
  moreover have "sz + length (replicate (pos - sz) (0::byte)) \<le> length bs0" using True assms by simp
  ultimately show ?thesis using overwrite_nth [of sz "replicate (pos - sz) 0" bs0 i] assms True
    by auto
next
  case False
  then have "\<not> (sz \<le> i \<and> i < pos)" by linarith
  with False show ?thesis by (auto simp: hole_filled_def)
qed

lemma written_bytes_nth:
  assumes lb: "length old = cap" and szc: "sz \<le> cap" and cn: "cap \<le> newcap"
    and fit: "pos + length buf \<le> newcap" and m: "m \<le> length buf" and i: "i < newcap"
    and bs1: "bs1 = hole_filled sz (old @ replicate (newcap - cap) 0) pos"
  shows "(take pos bs1 @ take m buf @ replicate (length buf - m) 0 @ drop (pos + length buf) bs1) ! i =
     (if pos \<le> i \<and> i < pos + m then buf ! (i - pos)
      else if pos + m \<le> i \<and> i < pos + length buf then 0
      else if sz \<le> i \<and> i < pos then 0
      else if i < cap then old ! i else 0)"
proof -
  define bs0 where "bs0 = old @ replicate (newcap - cap) (0::byte)"
  have l0: "length bs0 = newcap" using lb cn by (simp add: bs0_def)
  have l1: "length bs1 = newcap" unfolding bs1 bs0_def [symmetric]
    using l0 szc cn fit by (subst length_hole_filled) auto
  have n0: "bs0 ! i = (if i < cap then old ! i else 0)"
    using lb i by (simp add: bs0_def nth_append)
  have n1: "bs1 ! i = (if sz \<le> i \<and> i < pos then 0 else bs0 ! i)"
    unfolding bs1 bs0_def [symmetric]
    using l0 szc cn fit i by (subst hole_filled_nth) auto
  define xs where "xs = take m buf @ replicate (length buf - m) (0::byte)"
  have lx: "length xs = length buf" using m by (simp add: xs_def)
  have nx: "\<And>j. j < length buf \<Longrightarrow> xs ! j = (if j < m then buf ! j else 0)"
    using m by (simp add: xs_def nth_append)
  have B: "(take pos bs1 @ xs @ drop (pos + length xs) bs1) ! i =
        (if pos \<le> i \<and> i < pos + length xs then xs ! (i - pos) else bs1 ! i)"
    by (rule overwrite_nth) (use l1 fit i lx in auto)
  have C: "take pos bs1 @ take m buf @ replicate (length buf - m) 0 @ drop (pos + length buf) bs1
           = take pos bs1 @ xs @ drop (pos + length xs) bs1"
    unfolding lx by (simp add: xs_def)
  have A: "(take pos bs1 @ take m buf @ replicate (length buf - m) 0 @ drop (pos + length buf) bs1) ! i =
        (if pos \<le> i \<and> i < pos + length buf then xs ! (i - pos) else bs1 ! i)"
    unfolding C using B unfolding lx .
  show ?thesis
  proof (cases "pos \<le> i \<and> i < pos + length buf")
    case True
    then have "i - pos < length buf" by linarith
    from nx [OF this] True A m show ?thesis by auto
  next
    case False
    with A n1 n0 m show ?thesis by auto
  qed
qed

lemma write_copy_outcome:
  assumes res: "vtfs_data_node h priv = Inr d" and hd: "h d = Some node"
    and nd: "\<not> is_dir node" and ok: "buf_ok node"
    and pos: "pos = (if o_append then to_loff (int (size_f node)) else ppos)"
    and p0: "0 \<le> pos" and len: "0 < length buf"
    and e: "e = nat pos + length buf" and fit: "e \<le> SIZE_MAX"
    and c0: "c0 = (if capacity node = 0 then PAGE_SIZE else capacity node)"
    and k1: "e \<le> c0 * 2 ^ k" and k2: "\<forall>j<k. c0 * 2 ^ j < e"
    and reach: "\<not> (capacity node < e \<and> (SIZE_MAX < c0 * 2 ^ k \<or> \<not> krealloc_ok env))"
    and nc: "newcap = (if capacity node < e then c0 * 2 ^ k else capacity node)"
    and m: "m = (if length buf \<le> copy1 env then length buf else min (copy2 env) (length buf))"
  shows "\<exists>bs. length bs = newcap \<and>
     vtfs_write h priv o_append ppos buf env =
       Some ((if m \<noteq> 0 then Inr m else Inl EFAULT),
             h(d \<mapsto> node\<lparr>data := Some bs, size_f := max (size_f node) (nat pos + m),
                           capacity := newcap\<rparr>),
             to_loff (pos + int m)) \<and>
     (\<forall>i<newcap. bs ! i =
        (if nat pos \<le> i \<and> i < nat pos + m then buf ! (i - nat pos)
         else if nat pos + m \<le> i \<and> i < e then 0
         else if size_f node \<le> i \<and> i < nat pos then 0
         else if i < capacity node then bytes_of node ! i else 0))"
proof -
  define bs1 where "bs1 = hole_filled (size_f node) (bytes_of node @ replicate (newcap - capacity node) 0) (nat pos)"
  define bs where "bs = take (nat pos) bs1 @ take m buf @ replicate (length buf - m) 0 @ drop e bs1"
  note eq = vtfs_write_eq [OF res hd nd ok pos p0 len e fit c0 k1 k2 nc m bs1_def]
  have lb: "length (bytes_of node) = capacity node" by (rule length_bytes_of [OF ok])
  have szc: "size_f node \<le> capacity node" using ok by (simp add: buf_ok_def)
  have cn: "capacity node \<le> newcap" using nc k1 by auto
  have en: "nat pos + length buf \<le> newcap" using nc k1 e by auto
  have ml: "m \<le> length buf" using m by auto
  have l0: "length (bytes_of node @ replicate (newcap - capacity node) 0) = newcap"
    using lb cn by simp
  have l1: "length bs1 = newcap" unfolding bs1_def
    using l0 szc cn en by (subst length_hole_filled) auto
  have lbs: "length bs = newcap" using l1 en ml e by (simp add: bs_def)
  have ret: "(if m = length buf then Inr (length buf) else if m \<noteq> 0 then Inr m else Inl EFAULT)
             = (if m \<noteq> 0 then Inr m else (Inl EFAULT :: errno + nat))"
    using len by auto
  have w: "vtfs_write h priv o_append ppos buf env =
       Some ((if m \<noteq> 0 then Inr m else Inl EFAULT),
             h(d \<mapsto> node\<lparr>data := Some bs, size_f := max (size_f node) (nat pos + m),
                           capacity := newcap\<rparr>),
             to_loff (pos + int m))"
    using eq reach nc ret unfolding bs_def by auto
  have nth: "\<forall>i<newcap. bs ! i =
        (if nat pos \<le> i \<and> i < nat pos + m then buf ! (i - nat pos)
         else if nat pos + m \<le> i \<and> i < e then 0
         else if size_f node \<le> i \<and> i < nat pos then 0
         else if i < capacity node then bytes_of node ! i else 0)"
    unfolding bs_def e
    using written_bytes_nth [OF lb szc cn en ml _ bs1_def] by blast
  show ?thesis using lbs w nth by blast
qed

lemma grow_buffer_reach:
  assumes ok: "buf_ok node"
    and c0: "c0 = (if capacity node = 0 then PAGE_SIZE else capacity node)"
    and k1: "e \<le> c0 * 2 ^ k" and k2: "\<forall>j<k. c0 * 2 ^ j < e"
    and g: "grow_buffer node e env = Some (Inr node1)"
  shows "\<not> (capacity node < e \<and> (SIZE_MAX < c0 * 2 ^ k \<or> \<not> krealloc_ok env))"
proof
  assume a: "capacity node < e \<and> (SIZE_MAX < c0 * 2 ^ k \<or> \<not> krealloc_ok env)"
  then have gt: "capacity node < e" by simp
  from grow_buffer_eq [OF ok gt c0 k1 k2, of env] g a show False by (auto split: if_splits)
qed

subsection \<open>The write returns and keeps the buffer invariant\<close>

text \<open>The capacity loop starts from a positive capacity, so \<open>vtfs_write\<close> returns on every
  input; a node as \<open>vtfs_alloc_node\<close> makes it satisfies \<open>buf_ok\<close>, and a write leaves the data
  node satisfying it, with a capacity that never shrinks.\<close>

lemma grow_buffer_terminates: "\<exists>r. grow_buffer node e env = Some r"
proof -
  have "0 < (if capacity node = 0 then PAGE_SIZE else capacity node)"
    by (simp add: PAGE_SIZE_def)
  from grow_loop_terminates [OF this, of e] obtain r
    where "grow_loop (if capacity node = 0 then PAGE_SIZE else capacity node) e = Some r" ..
  then show ?thesis
    by (cases r) (auto simp: grow_buffer_def split: option.splits)
qed

lemma vtfs_write_terminates: "\<exists>r. vtfs_write h priv o_append ppos buf env = Some r"
proof (cases "vtfs_data_node h priv")
  case (Inl e)
  then show ?thesis by (simp add: vtfs_write_def)
next
  case (Inr d)
  show ?thesis
  proof (cases "h d")
    case None
    with Inr show ?thesis by (simp add: vtfs_write_def)
  next
    case (Some node)
    define pos where "pos = (if o_append then to_loff (int (size_f node)) else ppos)"
    obtain g where g: "grow_buffer node (nat pos + length buf) env = Some g"
      using grow_buffer_terminates by blast
    obtain ret node2 moved where c: "\<And>node1. g = Inr node1 \<Longrightarrow>
        copy_in node1 (nat pos) buf env = (ret, node2, moved)"
      by (cases g) (auto, metis prod_cases3)
    show ?thesis
      using Inr Some g c unfolding pos_def
      by (cases o_append; cases g) (simp_all add: vtfs_write_def Let_def)
  qed
qed

lemma vtfs_alloc_node_buf_ok:
  assumes "vtfs_alloc_node h (Some a) nm isdir md = (h', r)"
  shows "\<exists>n. h' a = Some n \<and> buf_ok n \<and> link_target n = None \<and> r = Some a"
  using assms by (auto simp: vtfs_alloc_node_def Let_def buf_ok_def zero_node_def)

lemma vtfs_write_buf_ok:
  assumes res: "vtfs_data_node h priv = Inr d" and hd: "h d = Some node" and ok: "buf_ok node"
    and w: "vtfs_write h priv o_append ppos buf env = Some (ret, h', ppos')"
  shows "\<exists>node'. h' d = Some node' \<and> buf_ok node' \<and> capacity node \<le> capacity node'"
proof -
  define pos where "pos = (if o_append then to_loff (int (size_f node)) else ppos)"
  define e where "e = nat pos + length buf"
  define c0 where "c0 = (if capacity node = 0 then PAGE_SIZE else capacity node)"
  have same: "h' = h \<Longrightarrow> ?thesis" using hd ok by auto
  show ?thesis
  proof (cases "is_dir node \<or> pos < 0 \<or> length buf = 0 \<or> \<not> e \<le> SIZE_MAX")
    case True
    then have "h' = h" using w res hd unfolding pos_def e_def
      by (cases o_append) (auto simp: vtfs_write_def Let_def split: if_splits)
    then show ?thesis by (rule same)
  next
    case False
    then have nd: "\<not> is_dir node" and p0: "0 \<le> pos" and len: "0 < length buf"
      and fit: "e \<le> SIZE_MAX" by auto
    have "0 < c0" by (simp add: c0_def PAGE_SIZE_def)
    from doubling_reaches [OF this, of e] obtain k
      where k1: "e \<le> c0 * 2 ^ k" and k2: "\<forall>j<k. c0 * 2 ^ j < e" by blast
    show ?thesis
    proof (cases "capacity node < e \<and> (SIZE_MAX < c0 * 2 ^ k \<or> \<not> krealloc_ok env)")
      case True
      have "h' = h"
        using vtfs_write_eq [OF res hd nd ok pos_def p0 len e_def fit c0_def k1 k2 refl refl refl] w True
        by (auto split: if_splits)
      then show ?thesis by (rule same)
    next
      case reach: False
      define newcap where "newcap = (if capacity node < e then c0 * 2 ^ k else capacity node)"
      define m where "m = (if length buf \<le> copy1 env then length buf else min (copy2 env) (length buf))"
      from write_copy_outcome [OF res hd nd ok pos_def p0 len e_def fit c0_def k1 k2 reach
          newcap_def m_def]
      obtain bs where lbs: "length bs = newcap"
        and eq: "vtfs_write h priv o_append ppos buf env =
          Some ((if m \<noteq> 0 then Inr m else Inl EFAULT),
             h(d \<mapsto> node\<lparr>data := Some bs, size_f := max (size_f node) (nat pos + m),
                           capacity := newcap\<rparr>),
             to_loff (pos + int m))" by blast
      have ml: "m \<le> length buf" by (simp add: m_def)
      have cn: "capacity node \<le> newcap" using k1 by (auto simp: newcap_def)
      have en: "e \<le> newcap" using k1 by (auto simp: newcap_def)
      have sz: "size_f node \<le> capacity node" and cs: "capacity node \<le> SIZE_MAX"
        using ok by (simp_all add: buf_ok_def)
      have top: "newcap \<le> SIZE_MAX" using reach cs by (auto simp: newcap_def)
      have "max (size_f node) (nat pos + m) \<le> newcap" using sz cn en ml by (simp add: e_def)
      then have "buf_ok (node\<lparr>data := Some bs, size_f := max (size_f node) (nat pos + m),
                           capacity := newcap\<rparr>)"
        using lbs top by (simp add: buf_ok_def)
      moreover from eq w have "h' = h(d \<mapsto> node\<lparr>data := Some bs,
          size_f := max (size_f node) (nat pos + m), capacity := newcap\<rparr>)" by simp
      ultimately show ?thesis using cn by simp
    qed
  qed
qed

subsection \<open>The round trip\<close>

text \<open>What a read finds in a node, the node after a write that reached the copy-in, and the
  writes that stop before it.\<close>

lemma read_back:
  assumes r: "vtfs_data_node h' priv = Inr d" and hd: "h' d = Some node'"
    and nd: "\<not> is_dir node'" and dt: "data node' = Some bs" and p0: "0 \<le> pos"
  shows "fst (vtfs_read h' priv pos n True) =
         Inr (take (min (size_f node' - nat pos) n) (drop (nat pos) bs))"
proof (cases "int (size_f node') \<le> pos")
  case True
  then have "size_f node' - nat pos = 0" using p0 by linarith
  then show ?thesis using r hd nd dt p0 True
    by (simp add: vtfs_read_def Let_def)
next
  case False
  then show ?thesis using r hd nd dt p0
    by (simp add: vtfs_read_def Let_def)
qed

lemma write_outcome:
  assumes res: "vtfs_data_node h priv = Inr d" and hd: "h d = Some node"
    and nd: "\<not> is_dir node" and ok: "buf_ok node"
    and pos: "pos = (if o_append then to_loff (int (size_f node)) else ppos)"
    and p0: "0 \<le> pos" and len: "0 < length buf"
    and e: "e = nat pos + length buf" and fit: "e \<le> SIZE_MAX"
    and c0: "c0 = (if capacity node = 0 then PAGE_SIZE else capacity node)"
    and k1: "e \<le> c0 * 2 ^ k" and k2: "\<forall>j<k. c0 * 2 ^ j < e"
    and reach: "\<not> (capacity node < e \<and> (SIZE_MAX < c0 * 2 ^ k \<or> \<not> krealloc_ok env))"
    and m: "m = (if length buf \<le> copy1 env then length buf else min (copy2 env) (length buf))"
  shows "\<exists>h' node' bs.
     vtfs_write h priv o_append ppos buf env =
       Some ((if m \<noteq> 0 then Inr m else Inl EFAULT), h', to_loff (pos + int m)) \<and>
     vtfs_data_node h' priv = Inr d \<and> h' d = Some node' \<and> \<not> is_dir node' \<and>
     data node' = Some bs \<and> size_f node' = max (size_f node) (nat pos + m) \<and>
     size_f node' \<le> length bs \<and>
     take m (drop (nat pos) bs) = take m buf \<and>
     take (nat pos - size_f node) (drop (size_f node) bs) = replicate (nat pos - size_f node) 0"
proof -
  define newcap where "newcap = (if capacity node < e then c0 * 2 ^ k else capacity node)"
  from write_copy_outcome [OF res hd nd ok pos p0 len e fit c0 k1 k2 reach newcap_def m]
  obtain bs where lbs: "length bs = newcap"
    and w: "vtfs_write h priv o_append ppos buf env =
       Some ((if m \<noteq> 0 then Inr m else Inl EFAULT),
             h(d \<mapsto> node\<lparr>data := Some bs, size_f := max (size_f node) (nat pos + m),
                           capacity := newcap\<rparr>),
             to_loff (pos + int m))"
    and nth: "\<forall>i<newcap. bs ! i =
        (if nat pos \<le> i \<and> i < nat pos + m then buf ! (i - nat pos)
         else if nat pos + m \<le> i \<and> i < e then 0
         else if size_f node \<le> i \<and> i < nat pos then 0
         else if i < capacity node then bytes_of node ! i else 0)"
    by blast
  define node' where "node' = node\<lparr>data := Some bs, size_f := max (size_f node) (nat pos + m),
                           capacity := newcap\<rparr>"
  define h' where "h' = h(d \<mapsto> node')"
  have en: "e \<le> newcap" using k1 by (auto simp: newcap_def)
  have cn: "capacity node \<le> newcap" using k1 by (auto simp: newcap_def)
  have szc: "size_f node \<le> capacity node" using ok by (simp add: buf_ok_def)
  have ml: "m \<le> length buf" using m by simp
  have r: "vtfs_data_node h' priv = Inr d" unfolding h'_def
    by (rule vtfs_data_node_upd [OF res hd]) (simp add: node'_def)
  have sl: "size_f node' \<le> length bs" using lbs en cn szc ml e by (simp add: node'_def)
  have tk: "take m (drop (nat pos) bs) = take m buf"
  proof (rule nth_equalityI)
    show "length (take m (drop (nat pos) bs)) = length (take m buf)"
      using lbs en ml e by simp
  next
    fix i assume "i < length (take m (drop (nat pos) bs))"
    then have im: "i < m" by simp
    then have "nat pos + i < newcap" using en ml e by linarith
    with nth have "bs ! (nat pos + i) = buf ! i" using im by simp
    then show "take m (drop (nat pos) bs) ! i = take m buf ! i"
      using im lbs en ml e by simp
  qed
  have gp: "take (nat pos - size_f node) (drop (size_f node) bs) = replicate (nat pos - size_f node) 0"
  proof (rule nth_equalityI)
    show "length (take (nat pos - size_f node) (drop (size_f node) bs)) =
          length (replicate (nat pos - size_f node) (0::byte))"
      using lbs en e by simp
  next
    fix i assume "i < length (take (nat pos - size_f node) (drop (size_f node) bs))"
    then have ig: "i < nat pos - size_f node" by simp
    then have lt: "size_f node + i < nat pos" by linarith
    then have "size_f node + i < newcap" using en e by linarith
    with nth have "bs ! (size_f node + i) = 0" using lt by simp
    then show "take (nat pos - size_f node) (drop (size_f node) bs) ! i =
               replicate (nat pos - size_f node) 0 ! i"
      using ig lbs en e by simp
  qed
  have "vtfs_write h priv o_append ppos buf env =
       Some ((if m \<noteq> 0 then Inr m else Inl EFAULT), h', to_loff (pos + int m))"
    using w by (simp add: h'_def node'_def)
  moreover have "h' d = Some node'" by (simp add: h'_def)
  moreover have "\<not> is_dir node'" using nd by (simp add: node'_def)
  moreover have "data node' = Some bs" by (simp add: node'_def)
  moreover have "size_f node' = max (size_f node) (nat pos + m)" by (simp add: node'_def)
  ultimately show ?thesis using r sl tk gp by blast
qed

lemma write_nothing:
  assumes res: "vtfs_data_node h priv = Inr d" and hd: "h d = Some node"
    and nd: "\<not> is_dir node"
    and pos: "pos = (if o_append then to_loff (int (size_f node)) else ppos)"
    and p0: "0 \<le> pos"
  shows "vtfs_write h priv o_append ppos [] env = Some (Inr 0, h, ppos)"
  using assms by (cases o_append) (simp_all add: vtfs_write_def Let_def)

lemma write_too_far:
  assumes res: "vtfs_data_node h priv = Inr d" and hd: "h d = Some node"
    and nd: "\<not> is_dir node"
    and pos: "pos = (if o_append then to_loff (int (size_f node)) else ppos)"
    and p0: "0 \<le> pos" and len: "0 < length buf"
    and far: "SIZE_MAX < nat pos + length buf"
  shows "vtfs_write h priv o_append ppos buf env = Some (Inl EFBIG, h, ppos)"
proof -
  have "int SIZE_MAX < pos \<or> SIZE_MAX - nat pos < length buf" using far by linarith
  then show ?thesis using res hd nd pos p0 len
    by (cases o_append) (auto simp: vtfs_write_def Let_def)
qed

lemma write_refused:
  assumes res: "vtfs_data_node h priv = Inr d" and hd: "h d = Some node"
    and nd: "\<not> is_dir node" and ok: "buf_ok node"
    and pos: "pos = (if o_append then to_loff (int (size_f node)) else ppos)"
    and p0: "0 \<le> pos" and len: "0 < length buf"
    and e: "e = nat pos + length buf" and fit: "e \<le> SIZE_MAX"
    and c0: "c0 = (if capacity node = 0 then PAGE_SIZE else capacity node)"
    and k1: "e \<le> c0 * 2 ^ k" and k2: "\<forall>j<k. c0 * 2 ^ j < e"
    and gt: "capacity node < e"
  shows "SIZE_MAX < c0 * 2 ^ k \<Longrightarrow>
           vtfs_write h priv o_append ppos buf env = Some (Inl EFBIG, h, ppos)"
    and "c0 * 2 ^ k \<le> SIZE_MAX \<Longrightarrow> \<not> krealloc_ok env \<Longrightarrow>
           vtfs_write h priv o_append ppos buf env = Some (Inl ENOMEM, h, ppos)"
proof -
  note eq = vtfs_write_eq [OF res hd nd ok pos p0 len e fit c0 k1 k2 refl refl refl]
  show "SIZE_MAX < c0 * 2 ^ k \<Longrightarrow>
           vtfs_write h priv o_append ppos buf env = Some (Inl EFBIG, h, ppos)"
    using eq gt by simp
  show "c0 * 2 ^ k \<le> SIZE_MAX \<Longrightarrow> \<not> krealloc_ok env \<Longrightarrow>
           vtfs_write h priv o_append ppos buf env = Some (Inl ENOMEM, h, ppos)"
    using eq gt by simp
qed

lemma doubling_below_half:
  assumes k1: "e \<le> c0 * 2 ^ k" and k2: "\<forall>j<k. c0 * 2 ^ j < e"
    and c: "c0 \<le> SIZE_MAX" and half: "e \<le> 2 ^ 63"
  shows "(c0::nat) * 2 ^ k \<le> SIZE_MAX"
proof (cases k)
  case 0
  then show ?thesis using c by simp
next
  case (Suc j)
  then have "c0 * 2 ^ j < e" using k2 by simp
  then have "c0 * 2 ^ j < 2 ^ 63" using half by linarith
  then have "c0 * 2 ^ j * 2 < 2 ^ 63 * 2" by simp
  then show ?thesis using Suc by (simp add: SIZE_MAX_def mult.assoc)
qed

text \<open>C1, as amended. For a file node (the data owner, or an alias of it), an offset that is
  not negative and bytes whose end offset \<open>e\<close> (offset plus length) fits \<open>size_t\<close>: unless the
  write is refused, a write followed by a read at the same offset, of as many bytes \<open>m\<close> as
  the write brought in (all of them whenever the copy-in is not cut short), returns exactly
  the bytes that were written, and a read of the same length as the write begins with them
  (with \<open>m = 0\<close> the write fails with \<open>EFAULT\<close> and nothing is read back). A write of at least one byte whose end offset exceeds the
  capacity is refused with \<open>EFBIG\<close> when the first of \<open>c0, 2 c0, 4 c0, ...\<close> that reaches the
  end offset exceeds \<open>SIZE_MAX\<close>, which never happens for an end offset of at most \<open>2^63\<close>,
  and with \<open>ENOMEM\<close> when the allocator fails; a refused write leaves the store and \<open>*ppos\<close>
  as they were.\<close>

theorem write_read_roundtrip:
  assumes res: "vtfs_data_node h priv = Inr d" and hd: "h d = Some node"
    and nd: "\<not> is_dir node" and ok: "buf_ok node"
    and pos: "pos = (if o_append then to_loff (int (size_f node)) else ppos)"
    and p0: "0 \<le> pos"
    and e: "e = nat pos + length buf" and fit: "e \<le> SIZE_MAX"
    and c0: "c0 = (if capacity node = 0 then PAGE_SIZE else capacity node)"
    and k1: "e \<le> c0 * 2 ^ k" and k2: "\<forall>j<k. c0 * 2 ^ j < e"
    and m: "m = (if length buf \<le> copy1 env then length buf else min (copy2 env) (length buf))"
  shows "(e \<le> 2 ^ 63 \<longrightarrow> c0 * 2 ^ k \<le> SIZE_MAX) \<and>
         (0 < length buf \<and> capacity node < e \<and> SIZE_MAX < c0 * 2 ^ k \<longrightarrow>
            vtfs_write h priv o_append ppos buf env = Some (Inl EFBIG, h, ppos)) \<and>
         (0 < length buf \<and> capacity node < e \<and> c0 * 2 ^ k \<le> SIZE_MAX \<and> \<not> krealloc_ok env \<longrightarrow>
            vtfs_write h priv o_append ppos buf env = Some (Inl ENOMEM, h, ppos)) \<and>
         (length buf = 0 \<or> e \<le> capacity node \<or> c0 * 2 ^ k \<le> SIZE_MAX \<and> krealloc_ok env \<longrightarrow>
            (\<exists>h' ppos' out.
               vtfs_write h priv o_append ppos buf env =
                 Some ((if m = 0 \<and> 0 < length buf then Inl EFAULT else Inr m), h', ppos') \<and>
               fst (vtfs_read h' priv pos m True) = Inr (take m buf) \<and>
               fst (vtfs_read h' priv pos (length buf) True) = Inr out \<and>
               take m out = take m buf))"
proof (intro conjI impI)
  have cs: "c0 \<le> SIZE_MAX" using c0 ok by (auto simp: buf_ok_def PAGE_SIZE_def SIZE_MAX_def)
  {
    assume "e \<le> 2 ^ 63"
    then show "c0 * 2 ^ k \<le> SIZE_MAX" by (rule doubling_below_half [OF k1 k2 cs])
  next
    assume a: "0 < length buf \<and> capacity node < e \<and> SIZE_MAX < c0 * 2 ^ k"
    then have len: "0 < length buf" and gt: "capacity node < e" and big: "SIZE_MAX < c0 * 2 ^ k"
      by simp_all
    show "vtfs_write h priv o_append ppos buf env = Some (Inl EFBIG, h, ppos)"
      by (rule write_refused(1) [OF res hd nd ok pos p0 len e fit c0 k1 k2 gt big])
  next
    assume a: "0 < length buf \<and> capacity node < e \<and> c0 * 2 ^ k \<le> SIZE_MAX \<and> \<not> krealloc_ok env"
    then have len: "0 < length buf" and gt: "capacity node < e" and sm: "c0 * 2 ^ k \<le> SIZE_MAX"
      and nk: "\<not> krealloc_ok env" by simp_all
    show "vtfs_write h priv o_append ppos buf env = Some (Inl ENOMEM, h, ppos)"
      by (rule write_refused(2) [OF res hd nd ok pos p0 len e fit c0 k1 k2 gt sm nk])
  next
    assume acc: "length buf = 0 \<or> e \<le> capacity node \<or> c0 * 2 ^ k \<le> SIZE_MAX \<and> krealloc_ok env"
    show "\<exists>h' ppos' out.
               vtfs_write h priv o_append ppos buf env =
                 Some ((if m = 0 \<and> 0 < length buf then Inl EFAULT else Inr m), h', ppos') \<and>
               fst (vtfs_read h' priv pos m True) = Inr (take m buf) \<and>
               fst (vtfs_read h' priv pos (length buf) True) = Inr out \<and>
               take m out = take m buf"
    proof (cases "length buf = 0")
      case True
      then have b: "buf = []" and m0: "m = 0" using m by simp_all
      have w: "vtfs_write h priv o_append ppos buf env = Some (Inr 0, h, ppos)"
        unfolding b by (rule write_nothing [OF res hd nd pos p0])
      have "fst (vtfs_read h priv pos 0 True) = Inr []"
        using res hd nd p0 by (simp add: vtfs_read_def Let_def split: option.splits)
      with w m0 True show ?thesis by simp
    next
      case False
      then have len: "0 < length buf" by simp
      from acc False have reach:
        "\<not> (capacity node < e \<and> (SIZE_MAX < c0 * 2 ^ k \<or> \<not> krealloc_ok env))" by auto
      from write_outcome [OF res hd nd ok pos p0 len e fit c0 k1 k2 reach m]
      obtain h' node' bs where
        w: "vtfs_write h priv o_append ppos buf env =
              Some ((if m \<noteq> 0 then Inr m else Inl EFAULT), h', to_loff (pos + int m))"
        and r: "vtfs_data_node h' priv = Inr d" and hd': "h' d = Some node'"
        and nd': "\<not> is_dir node'" and dt: "data node' = Some bs"
        and sz: "size_f node' = max (size_f node) (nat pos + m)"
        and tk: "take m (drop (nat pos) bs) = take m buf"
        by blast
      have le: "nat pos + m \<le> size_f node'" using sz by simp
      have ml: "m \<le> length buf" using m by simp
      have rm: "fst (vtfs_read h' priv pos m True) = Inr (take m buf)"
        using read_back [OF r hd' nd' dt p0, of m] le tk by (simp add: min_absorb2)
      define out where "out = take (min (size_f node' - nat pos) (length buf)) (drop (nat pos) bs)"
      have rn: "fst (vtfs_read h' priv pos (length buf) True) = Inr out"
        unfolding out_def by (rule read_back [OF r hd' nd' dt p0])
      have "min m (min (size_f node' - nat pos) (length buf)) = m" using le ml by simp
      then have tm: "take m out = take m buf" using tk by (simp add: out_def)
      have "vtfs_write h priv o_append ppos buf env =
              Some ((if m = 0 \<and> 0 < length buf then Inl EFAULT else Inr m), h',
                    to_loff (pos + int m))"
        using w len by simp
      with rm rn tm show ?thesis by blast
    qed
  }
qed

subsection \<open>Partial copies, holes and growth\<close>

text \<open>C2. When the first copy-in stops early, the code copies again and goes by the second
  copy: with \<open>written\<close> the number of bytes that one brought in, the buffer holds exactly
  those bytes at the offset, the size is \<open>max size (offset + written)\<close>, \<open>*ppos\<close> is
  \<open>offset + written\<close> (as an \<open>loff_t\<close>), and the write returns \<open>written\<close> when it is
  positive and fails with \<open>EFAULT\<close> only when it is zero.\<close>

theorem partial_copy_bookkeeping:
  assumes res: "vtfs_data_node h priv = Inr d" and hd: "h d = Some node"
    and nd: "\<not> is_dir node" and ok: "buf_ok node"
    and pos: "pos = (if o_append then to_loff (int (size_f node)) else ppos)"
    and p0: "0 \<le> pos" and fit: "nat pos + length buf \<le> SIZE_MAX"
    and g: "grow_buffer node (nat pos + length buf) env = Some (Inr node1)"
    and early: "copy1 env < length buf"
    and wr: "written = min (copy2 env) (length buf)"
  shows "\<exists>h' node' bs.
     vtfs_write h priv o_append ppos buf env =
       Some ((if written \<noteq> 0 then Inr written else Inl EFAULT), h', to_loff (pos + int written)) \<and>
     h' d = Some node' \<and> size_f node' = max (size_f node) (nat pos + written) \<and>
     data node' = Some bs \<and> take written (drop (nat pos) bs) = take written buf"
proof -
  from early have len: "0 < length buf" by (cases buf) simp_all
  define e where "e = nat pos + length buf"
  define c0 where "c0 = (if capacity node = 0 then PAGE_SIZE else capacity node)"
  have "0 < c0" by (simp add: c0_def PAGE_SIZE_def)
  then obtain k where k1: "e \<le> c0 * 2 ^ k" and k2: "\<forall>j<k. c0 * 2 ^ j < e"
    using doubling_reaches [of c0 e] by blast
  define newcap where "newcap = (if capacity node < e then c0 * 2 ^ k else capacity node)"
  have m: "written = (if length buf \<le> copy1 env then length buf else min (copy2 env) (length buf))"
    using early wr by simp
  note reach = grow_buffer_reach [OF ok c0_def k1 k2 g [folded e_def]]
  from write_copy_outcome [OF res hd nd ok pos p0 len e_def fit [folded e_def] c0_def k1 k2 reach newcap_def m]
  obtain bs where lbs: "length bs = newcap"
    and w: "vtfs_write h priv o_append ppos buf env =
       Some ((if written \<noteq> 0 then Inr written else Inl EFAULT),
             h(d \<mapsto> node\<lparr>data := Some bs, size_f := max (size_f node) (nat pos + written),
                           capacity := newcap\<rparr>),
             to_loff (pos + int written))"
    and nth: "\<forall>i<newcap. bs ! i =
        (if nat pos \<le> i \<and> i < nat pos + written then buf ! (i - nat pos)
         else if nat pos + written \<le> i \<and> i < e then 0
         else if size_f node \<le> i \<and> i < nat pos then 0
         else if i < capacity node then bytes_of node ! i else 0)"
    by blast
  have en: "e \<le> newcap" using k1 by (auto simp: newcap_def)
  have wl: "written \<le> length buf" using wr by simp
  have tk: "take written (drop (nat pos) bs) = take written buf"
  proof (rule nth_equalityI)
    show "length (take written (drop (nat pos) bs)) = length (take written buf)"
      using lbs en wl e_def by simp
  next
    fix i assume "i < length (take written (drop (nat pos) bs))"
    then have iw: "i < written" by simp
    then have "nat pos + i < newcap" using en wl e_def by linarith
    with nth have "bs ! (nat pos + i) = buf ! i" using iw by simp
    then show "take written (drop (nat pos) bs) ! i = take written buf ! i"
      using iw lbs en wl e_def by simp
  qed
  show ?thesis using w tk by auto
qed

text \<open>C3, as amended. For a file node and an offset beyond its current size: a write of at
  least one byte that is not refused clears the gap from the old size up to the offset
  before it places the new bytes, so that a read of the gap returns zero bytes only, and
  leaves the size at the offset plus the number \<open>m\<close> of bytes the copy-in brought in, which
  is offset plus length whenever the copy-in is not cut short (with \<open>m = 0\<close> the write fails
  with \<open>EFAULT\<close> and the size is the offset). A write of no bytes at such an offset returns 0
  and changes nothing. A write of at least one byte is refused, changing nothing, with
  \<open>EFBIG\<close> when the end offset exceeds \<open>SIZE_MAX\<close> or exceeds the capacity and the first of
  \<open>c0, 2 c0, 4 c0, ...\<close> that reaches it exceeds \<open>SIZE_MAX\<close>, and with \<open>ENOMEM\<close> when the
  allocator fails.\<close>

theorem hole_write_zero_fill:
  assumes res: "vtfs_data_node h priv = Inr d" and hd: "h d = Some node"
    and nd: "\<not> is_dir node" and ok: "buf_ok node"
    and pos: "pos = (if o_append then to_loff (int (size_f node)) else ppos)"
    and hole: "int (size_f node) < pos"
    and e: "e = nat pos + length buf"
    and c0: "c0 = (if capacity node = 0 then PAGE_SIZE else capacity node)"
    and k1: "e \<le> c0 * 2 ^ k" and k2: "\<forall>j<k. c0 * 2 ^ j < e"
    and m: "m = (if length buf \<le> copy1 env then length buf else min (copy2 env) (length buf))"
    and gap: "gap = nat pos - size_f node"
  shows "(length buf = 0 \<longrightarrow> vtfs_write h priv o_append ppos buf env = Some (Inr 0, h, ppos)) \<and>
         (0 < length buf \<and> (SIZE_MAX < e \<or> capacity node < e \<and> SIZE_MAX < c0 * 2 ^ k) \<longrightarrow>
            vtfs_write h priv o_append ppos buf env = Some (Inl EFBIG, h, ppos)) \<and>
         (0 < length buf \<and> capacity node < e \<and> c0 * 2 ^ k \<le> SIZE_MAX \<and> \<not> krealloc_ok env \<longrightarrow>
            vtfs_write h priv o_append ppos buf env = Some (Inl ENOMEM, h, ppos)) \<and>
         (0 < length buf \<and> e \<le> SIZE_MAX \<and>
          (e \<le> capacity node \<or> c0 * 2 ^ k \<le> SIZE_MAX \<and> krealloc_ok env) \<longrightarrow>
            (\<exists>h' node' bs.
               vtfs_write h priv o_append ppos buf env =
                 Some ((if m = 0 then Inl EFAULT else Inr m), h', to_loff (pos + int m)) \<and>
               h' d = Some node' \<and> data node' = Some bs \<and>
               size_f node' = nat pos + m \<and>
               take gap (drop (size_f node) bs) = replicate gap 0 \<and>
               take m (drop (nat pos) bs) = take m buf \<and>
               fst (vtfs_read h' priv (int (size_f node)) gap True) = Inr (replicate gap 0)))"
proof (intro conjI impI)
  have p0: "0 \<le> pos" using hole by linarith
  have cs: "c0 \<le> SIZE_MAX" using c0 ok by (auto simp: buf_ok_def PAGE_SIZE_def SIZE_MAX_def)
  {
    assume "length buf = 0"
    then have b: "buf = []" by simp
    show "vtfs_write h priv o_append ppos buf env = Some (Inr 0, h, ppos)"
      unfolding b by (rule write_nothing [OF res hd nd pos p0])
  next
    assume a: "0 < length buf \<and> (SIZE_MAX < e \<or> capacity node < e \<and> SIZE_MAX < c0 * 2 ^ k)"
    then have len: "0 < length buf" by simp
    show "vtfs_write h priv o_append ppos buf env = Some (Inl EFBIG, h, ppos)"
    proof (cases "SIZE_MAX < e")
      case True
      then have "SIZE_MAX < nat pos + length buf" by (simp add: e)
      then show ?thesis by (rule write_too_far [OF res hd nd pos p0 len])
    next
      case False
      then have fit: "e \<le> SIZE_MAX" by simp
      from a False have gt: "capacity node < e" and big: "SIZE_MAX < c0 * 2 ^ k" by simp_all
      show ?thesis
        by (rule write_refused(1) [OF res hd nd ok pos p0 len e fit c0 k1 k2 gt big])
    qed
  next
    assume a: "0 < length buf \<and> capacity node < e \<and> c0 * 2 ^ k \<le> SIZE_MAX \<and> \<not> krealloc_ok env"
    then have len: "0 < length buf" and gt: "capacity node < e" and sm: "c0 * 2 ^ k \<le> SIZE_MAX"
      and nk: "\<not> krealloc_ok env" by simp_all
    have fit: "e \<le> SIZE_MAX" using k1 sm by linarith
    show "vtfs_write h priv o_append ppos buf env = Some (Inl ENOMEM, h, ppos)"
      by (rule write_refused(2) [OF res hd nd ok pos p0 len e fit c0 k1 k2 gt sm nk])
  next
    assume a: "0 < length buf \<and> e \<le> SIZE_MAX \<and>
          (e \<le> capacity node \<or> c0 * 2 ^ k \<le> SIZE_MAX \<and> krealloc_ok env)"
    then have len: "0 < length buf" and fit: "e \<le> SIZE_MAX"
      and reach: "\<not> (capacity node < e \<and> (SIZE_MAX < c0 * 2 ^ k \<or> \<not> krealloc_ok env))"
      by auto
    from write_outcome [OF res hd nd ok pos p0 len e fit c0 k1 k2 reach m]
    obtain h' node' bs where
      w: "vtfs_write h priv o_append ppos buf env =
            Some ((if m \<noteq> 0 then Inr m else Inl EFAULT), h', to_loff (pos + int m))"
      and r: "vtfs_data_node h' priv = Inr d" and hd': "h' d = Some node'"
      and nd': "\<not> is_dir node'" and dt: "data node' = Some bs"
      and sz: "size_f node' = max (size_f node) (nat pos + m)"
      and tk: "take m (drop (nat pos) bs) = take m buf"
      and gp: "take (nat pos - size_f node) (drop (size_f node) bs) = replicate (nat pos - size_f node) 0"
      by blast
    have sz': "size_f node' = nat pos + m" using sz hole by simp
    have le: "nat (int (size_f node)) + gap \<le> size_f node'" using sz' hole gap by simp
    have "fst (vtfs_read h' priv (int (size_f node)) gap True) =
          Inr (take gap (drop (nat (int (size_f node))) bs))"
      using read_back [OF r hd' nd' dt, of "int (size_f node)" gap] le by (simp add: min_absorb2)
    then have rd: "fst (vtfs_read h' priv (int (size_f node)) gap True) = Inr (replicate gap 0)"
      using gp gap by simp
    have w': "vtfs_write h priv o_append ppos buf env =
                 Some ((if m = 0 then Inl EFAULT else Inr m), h', to_loff (pos + int m))"
      using w by simp
    show "\<exists>h' node' bs.
               vtfs_write h priv o_append ppos buf env =
                 Some ((if m = 0 then Inl EFAULT else Inr m), h', to_loff (pos + int m)) \<and>
               h' d = Some node' \<and> data node' = Some bs \<and>
               size_f node' = nat pos + m \<and>
               take gap (drop (size_f node) bs) = replicate gap 0 \<and>
               take m (drop (nat pos) bs) = take m buf \<and>
               fst (vtfs_read h' priv (int (size_f node)) gap True) = Inr (replicate gap 0)"
      using w' hd' dt sz' gp tk rd gap by blast
  }
qed


subsection \<open>Closed instances\<close>

lemma data_node_heap1: "vtfs_data_node heap1 1 = Inr 1"
  by (simp add: vtfs_data_node_def empty_file_def heap1_def)

lemma heap1_1: "heap1 1 = Some empty_file"
  by (simp add: heap1_def)

lemma write_to_empty_file:
  assumes r: "vtfs_data_node h priv = Inr d" and hd: "h d = Some empty_file"
  shows "vtfs_write h priv False 0 [72, 105] env_ok =
     Some (Inr 2, h(d \<mapsto> empty_file\<lparr>data := Some ([72, 105] @ replicate 4094 0), size_f := 2,
                                     capacity := 4096\<rparr>), 2)"
proof -
  have nd: "\<not> is_dir empty_file" by (simp add: empty_file_def)
  have eq: "vtfs_write h priv False 0 [72, 105] env_ok = Some
     (if capacity empty_file < 2 \<and> SIZE_MAX < 4096 then (Inl EFBIG, h, 0)
      else if capacity empty_file < 2 \<and> \<not> krealloc_ok env_ok then (Inl ENOMEM, h, 0)
      else ((if 2 = length [72, 105 :: byte] then Inr (length [72, 105 :: byte]) else if (2::nat) \<noteq> 0 then Inr 2 else Inl EFAULT),
            h(d \<mapsto> empty_file\<lparr>data := Some (take (nat 0) (replicate 4096 0) @ take 2 [72, 105]
                                   @ replicate (length [72, 105 :: byte] - 2) 0 @ drop 2 (replicate 4096 0)),
                               size_f := max (size_f empty_file) (nat 0 + 2),
                               capacity := 4096\<rparr>),
            to_loff (0 + int 2)))"
    by (rule vtfs_write_eq [OF r hd nd buf_ok_empty_file, where k = 0 and ?c0.0 = 4096])
       (simp_all add: empty_file_def env_ok_def SIZE_MAX_def PAGE_SIZE_def hole_filled_def bytes_of_def)
  have c: "capacity empty_file = 0" "size_f empty_file = 0" by (simp_all add: empty_file_def)
  have k: "krealloc_ok env_ok" by (simp add: env_ok_def)
  show ?thesis unfolding eq
    by (simp add: c k SIZE_MAX_def to_loff_def) (simp add: numeral_2_eq_2)
qed

lemma empty_file_simps:
  "\<not> is_dir empty_file" "capacity empty_file = 0" "size_f empty_file = 0"
  "4096 = (if capacity empty_file = 0 then PAGE_SIZE else capacity empty_file)"
  by (simp_all add: empty_file_def PAGE_SIZE_def)

lemma write_heap1_efbig:
  assumes p0: "0 \<le> ppos" and len: "0 < length buf"
    and half: "2 ^ 63 < nat ppos + length buf" and fit: "nat ppos + length buf \<le> SIZE_MAX"
  shows "vtfs_write heap1 1 False ppos buf env = Some (Inl EFBIG, heap1, ppos)"
proof -
  have p: "ppos = (if False then to_loff (int (size_f empty_file)) else ppos)" by simp
  have k1: "nat ppos + length buf \<le> 4096 * 2 ^ 52" using fit by (simp add: SIZE_MAX_def)
  have k2: "\<forall>j<52. 4096 * 2 ^ j < nat ppos + length buf"
  proof (intro allI impI)
    fix j :: nat assume "j < 52"
    then have "j \<le> 51" by simp
    then have "(2::nat) ^ j \<le> 2 ^ 51" by (rule power_increasing) simp
    then have "(4096::nat) * 2 ^ j \<le> 4096 * 2 ^ 51" by simp
    with half show "4096 * 2 ^ j < nat ppos + length buf" by simp
  qed
  have gt: "capacity empty_file < nat ppos + length buf" using len by (simp add: empty_file_simps)
  have big: "SIZE_MAX < 4096 * 2 ^ 52" by (simp add: SIZE_MAX_def)
  show ?thesis
    by (rule write_refused(1) [OF data_node_heap1 heap1_1 empty_file_simps(1) buf_ok_empty_file
          p p0 len refl fit empty_file_simps(4) k1 k2 gt big])
qed

lemma write_heap1_enomem:
  assumes p0: "0 \<le> ppos" and len: "0 < length buf"
    and page: "nat ppos + length buf \<le> 4096" and nk: "\<not> krealloc_ok env"
  shows "vtfs_write heap1 1 False ppos buf env = Some (Inl ENOMEM, heap1, ppos)"
proof -
  have p: "ppos = (if False then to_loff (int (size_f empty_file)) else ppos)" by simp
  have fit: "nat ppos + length buf \<le> SIZE_MAX" using page by (simp add: SIZE_MAX_def)
  have k1: "nat ppos + length buf \<le> 4096 * 2 ^ 0" using page by simp
  have k2: "\<forall>j<0::nat. 4096 * 2 ^ j < nat ppos + length buf" by simp
  have gt: "capacity empty_file < nat ppos + length buf" using len by (simp add: empty_file_simps)
  have sm: "4096 * 2 ^ 0 \<le> SIZE_MAX" by (simp add: SIZE_MAX_def)
  show ?thesis
    by (rule write_refused(2) [OF data_node_heap1 heap1_1 empty_file_simps(1) buf_ok_empty_file
          p p0 len refl fit empty_file_simps(4) k1 k2 gt sm nk])
qed

lemma write_heap1_short:
  assumes p0: "0 \<le> ppos" and page: "nat ppos + 3 \<le> 4096"
  shows "\<exists>h' node' bs.
     vtfs_write heap1 1 False ppos [72, 105, 33] env_short = Some (Inr 1, h', to_loff (ppos + 1)) \<and>
     vtfs_data_node h' 1 = Inr 1 \<and> h' 1 = Some node' \<and> \<not> is_dir node' \<and>
     data node' = Some bs \<and> size_f node' = nat ppos + 1 \<and> take 1 (drop (nat ppos) bs) = [72]"
proof -
  have p: "ppos = (if False then to_loff (int (size_f empty_file)) else ppos)" by simp
  have len: "0 < length [72, 105, 33 :: byte]" by simp
  have e: "nat ppos + 3 = nat ppos + length [72, 105, 33 :: byte]" by simp
  have fit: "nat ppos + 3 \<le> SIZE_MAX" using page by (simp add: SIZE_MAX_def)
  have k1: "nat ppos + 3 \<le> 4096 * 2 ^ 0" using page by simp
  have k2: "\<forall>j<0::nat. 4096 * 2 ^ j < nat ppos + 3" by simp
  have reach: "\<not> (capacity empty_file < nat ppos + 3 \<and>
                 (SIZE_MAX < 4096 * 2 ^ 0 \<or> \<not> krealloc_ok env_short))"
    by (simp add: SIZE_MAX_def env_short_def)
  have m: "1 = (if length [72, 105, 33 :: byte] \<le> copy1 env_short then length [72, 105, 33 :: byte]
                else min (copy2 env_short) (length [72, 105, 33 :: byte]))"
    by (simp add: env_short_def)
  from write_outcome [OF data_node_heap1 heap1_1 empty_file_simps(1) buf_ok_empty_file
          p p0 len e fit empty_file_simps(4) k1 k2 reach m]
  show ?thesis by (auto simp: empty_file_simps)
qed

theorem write_read_roundtrip_witness:
  "vtfs_data_node heap1 1 = Inr 1 \<and> heap1 1 = Some empty_file \<and> \<not> is_dir empty_file \<and>
   buf_ok empty_file \<and> (0::int) \<le> 0 \<and> nat 0 + length [72, 105 :: byte] \<le> SIZE_MAX \<and>
   nat 0 + length [72, 105 :: byte] \<le> 4096 * 2 ^ 0 \<and>
   4096 * 2 ^ 0 \<le> SIZE_MAX \<and> krealloc_ok env_ok \<and> length [72, 105 :: byte] \<le> copy1 env_ok \<and>
   vtfs_write heap1 1 False 0 [72, 105] env_ok =
     Some (Inr (length [72, 105 :: byte]),
           heap1(1 \<mapsto> empty_file\<lparr>data := Some ([72, 105] @ replicate 4094 0), size_f := 2,
                                    capacity := 4096\<rparr>), 2) \<and>
   fst (vtfs_read (heap1(1 \<mapsto> empty_file\<lparr>data := Some ([72, 105] @ replicate 4094 0),
                                         size_f := 2, capacity := 4096\<rparr>))
          1 0 (length [72, 105 :: byte]) True) = Inr [72, 105]"
proof -
  have p: "(0::int) = (if False then to_loff (int (size_f empty_file)) else 0)" by simp
  have p0: "(0::int) \<le> 0" by simp
  have fit: "nat 0 + length [72, 105 :: byte] \<le> SIZE_MAX" by (simp add: SIZE_MAX_def)
  have k1: "nat 0 + length [72, 105 :: byte] \<le> 4096 * 2 ^ 0" by simp
  have k2: "\<forall>j<0::nat. 4096 * 2 ^ j < nat 0 + length [72, 105 :: byte]" by simp
  have sm: "4096 * 2 ^ 0 \<le> SIZE_MAX" by (simp add: SIZE_MAX_def)
  have kr: "krealloc_ok env_ok" by (simp add: env_ok_def)
  have c1: "length [72, 105 :: byte] \<le> copy1 env_ok" by (simp add: env_ok_def)
  have m: "length [72, 105 :: byte] =
           (if length [72, 105 :: byte] \<le> copy1 env_ok then length [72, 105 :: byte]
            else min (copy2 env_ok) (length [72, 105 :: byte]))"
    using c1 by simp
  have w: "vtfs_write heap1 1 False 0 [72, 105] env_ok =
     Some (Inr (length [72, 105 :: byte]),
           heap1(1 \<mapsto> empty_file\<lparr>data := Some ([72, 105] @ replicate 4094 0), size_f := 2,
                                    capacity := 4096\<rparr>), 2)"
    using write_to_empty_file [OF data_node_heap1 heap1_1] by simp
  note t = write_read_roundtrip [OF data_node_heap1 heap1_1 empty_file_simps(1) buf_ok_empty_file
      p p0 refl fit empty_file_simps(4) k1 k2 m]
  from t sm kr have "\<exists>h' ppos'.
      vtfs_write heap1 1 False 0 [72, 105] env_ok =
        Some ((if length [72, 105 :: byte] = 0 \<and> 0 < length [72, 105 :: byte] then Inl EFAULT
               else Inr (length [72, 105 :: byte])), h', ppos') \<and>
      fst (vtfs_read h' 1 0 (length [72, 105 :: byte]) True) = Inr (take (length [72, 105 :: byte]) [72, 105])"
    by blast
  with w have rd: "fst (vtfs_read (heap1(1 \<mapsto> empty_file\<lparr>data := Some ([72, 105] @ replicate 4094 0),
                                         size_f := 2, capacity := 4096\<rparr>))
          1 0 (length [72, 105 :: byte]) True) = Inr [72, 105]"
    by auto
  show ?thesis
    by (intro conjI) (fact data_node_heap1 heap1_1 empty_file_simps(1) buf_ok_empty_file p0 fit k1
        sm kr c1 w rd)+
qed

text \<open>C1 as stated fails within its bound: on an empty file, two bytes at offset \<open>2^63 - 1\<close>
  end at \<open>2^63 + 1\<close>, which fits \<open>size_t\<close>, yet the doubling from one page passes
  \<open>SIZE_MAX / 2\<close> before it reaches that, the write fails with \<open>EFBIG\<close> and the read returns
  nothing. Nor does the read return the bytes handed to the write when the allocator fails
  (\<open>ENOMEM\<close>) or when the copy-in is cut short (one byte of three is read back).\<close>

theorem roundtrip_refused_counterexample:
  "vtfs_data_node heap1 1 = Inr 1 \<and> heap1 1 = Some empty_file \<and> \<not> is_dir empty_file \<and>
   nat (2 ^ 63 - 1) + length [72, 105 :: byte] \<le> SIZE_MAX \<and>
   vtfs_write heap1 1 False (2 ^ 63 - 1) [72, 105] env_ok = Some (Inl EFBIG, heap1, 2 ^ 63 - 1) \<and>
   fst (vtfs_read heap1 1 (2 ^ 63 - 1) (length [72, 105 :: byte]) True) = Inr [] \<and>
   vtfs_write heap1 1 False 0 [72, 105] env_nomem = Some (Inl ENOMEM, heap1, 0) \<and>
   fst (vtfs_read heap1 1 0 (length [72, 105 :: byte]) True) = Inr [] \<and>
   (\<exists>h'. vtfs_write heap1 1 False 0 [72, 105, 33] env_short = Some (Inr 1, h', 1) \<and>
      fst (vtfs_read h' 1 0 (length [72, 105, 33 :: byte]) True) = Inr [72])"
proof -
  have fit: "nat (2 ^ 63 - 1) + length [72, 105 :: byte] \<le> SIZE_MAX" by (simp add: SIZE_MAX_def)
  have a: "vtfs_write heap1 1 False (2 ^ 63 - 1) [72, 105] env_ok =
           Some (Inl EFBIG, heap1, 2 ^ 63 - 1)"
    by (rule write_heap1_efbig) (simp_all add: SIZE_MAX_def)
  have rd: "\<And>p n. 0 \<le> p \<Longrightarrow> fst (vtfs_read heap1 1 p n True) = Inr []"
    using data_node_heap1 heap1_1 by (simp add: vtfs_read_def empty_file_def)
  have b: "vtfs_write heap1 1 False 0 [72, 105] env_nomem = Some (Inl ENOMEM, heap1, 0)"
    by (rule write_heap1_enomem) (simp_all add: env_nomem_def)
  from write_heap1_short [of 0]
  obtain h' node' bs where
    w: "vtfs_write heap1 1 False 0 [72, 105, 33] env_short = Some (Inr 1, h', to_loff (0 + 1))"
    and r: "vtfs_data_node h' 1 = Inr 1" and hd': "h' 1 = Some node'" and nd': "\<not> is_dir node'"
    and dt: "data node' = Some bs" and sz: "size_f node' = nat 0 + 1"
    and tk: "take 1 (drop (nat 0) bs) = [72]"
    by auto
  have "fst (vtfs_read h' 1 0 (length [72, 105, 33 :: byte]) True) = Inr [72]"
    using read_back [OF r hd' nd' dt, of 0 "length [72, 105, 33 :: byte]"] sz tk by simp
  with w have c: "\<exists>h'. vtfs_write heap1 1 False 0 [72, 105, 33] env_short = Some (Inr 1, h', 1) \<and>
      fst (vtfs_read h' 1 0 (length [72, 105, 33 :: byte]) True) = Inr [72]"
    by (auto simp: to_loff_def)
  have r1: "fst (vtfs_read heap1 1 (2 ^ 63 - 1) (length [72, 105 :: byte]) True) = Inr []"
    by (rule rd) simp
  have r2: "fst (vtfs_read heap1 1 0 (length [72, 105 :: byte]) True) = Inr []"
    by (rule rd) simp
  show ?thesis
    by (intro conjI) (fact data_node_heap1 heap1_1 empty_file_simps(1) fit a b c r1 r2)+
qed

lemma grow_empty_file:
  assumes "0 < e" and "e \<le> 4096" and "krealloc_ok env"
  shows "grow_buffer empty_file e env =
         Some (Inr (empty_file\<lparr>data := Some (replicate 4096 0), capacity := 4096\<rparr>))"
proof -
  have gt: "capacity empty_file < e" using assms by (simp add: empty_file_def)
  have c0: "4096 = (if capacity empty_file = 0 then PAGE_SIZE else capacity empty_file)"
    by (simp add: empty_file_def PAGE_SIZE_def)
  have k1: "e \<le> 4096 * 2 ^ 0" using assms by simp
  have k2: "\<forall>j<0::nat. 4096 * 2 ^ j < e" by simp
  show ?thesis
    using grow_buffer_eq [OF buf_ok_empty_file gt c0 k1 k2, of env] assms
    by (simp add: SIZE_MAX_def bytes_of_def empty_file_def)
qed

theorem partial_copy_bookkeeping_witness:
  "vtfs_data_node heap1 1 = Inr 1 \<and> heap1 1 = Some empty_file \<and>
   \<not> is_dir empty_file \<and> buf_ok empty_file \<and> nat 0 + length [72, 105, 33 :: byte] \<le> SIZE_MAX \<and>
   grow_buffer empty_file (nat 0 + length [72, 105, 33 :: byte]) env_short =
     Some (Inr (empty_file\<lparr>data := Some (replicate 4096 0), capacity := 4096\<rparr>)) \<and>
   copy1 env_short < length [72, 105, 33 :: byte] \<and>
   (\<exists>h' node' bs.
      vtfs_write heap1 1 False 0 [72, 105, 33] env_short = Some (Inr 1, h', 1) \<and>
      h' 1 = Some node' \<and> size_f node' = 1 \<and> data node' = Some bs \<and> take 1 bs = [72])"
proof -
  note hd = heap1_1
  have nd: "\<not> is_dir empty_file" by (simp add: empty_file_def)
  have p: "(0::int) = (if False then to_loff (int (size_f empty_file)) else 0)" by simp
  have p0: "(0::int) \<le> 0" by simp
  have fit: "nat 0 + length [72, 105, 33 :: byte] \<le> SIZE_MAX" by (simp add: SIZE_MAX_def)
  have g: "grow_buffer empty_file (nat 0 + length [72, 105, 33 :: byte]) env_short =
     Some (Inr (empty_file\<lparr>data := Some (replicate 4096 0), capacity := 4096\<rparr>))"
    by (rule grow_empty_file) (simp_all add: env_short_def)
  have sz: "size_f empty_file = 0" by (simp add: empty_file_def)
  have early: "copy1 env_short < length [72, 105, 33 :: byte]" by (simp add: env_short_def)
  have wr: "1 = min (copy2 env_short) (length [72, 105, 33 :: byte])" by (simp add: env_short_def)
  from partial_copy_bookkeeping [OF data_node_heap1 hd nd buf_ok_empty_file p p0 fit g early wr]
  have "\<exists>h' node' bs.
      vtfs_write heap1 1 False 0 [72, 105, 33] env_short = Some (Inr 1, h', 1) \<and>
      h' 1 = Some node' \<and> size_f node' = 1 \<and> data node' = Some bs \<and> take 1 bs = [72]"
    by (simp add: to_loff_def sz)
  with data_node_heap1 hd nd buf_ok_empty_file fit g early show ?thesis by blast
qed

text \<open>C3 as stated fails for a write of no bytes: at offset 5 of an empty file it returns 0,
  the size stays 0 instead of \<open>5 + 0\<close>, and a read of the gap returns nothing. It also fails
  when the copy-in is cut short (three bytes at offset 4, one copied: the size is 5, not
  7), and when the write is refused (\<open>EFBIG\<close> for an end offset of \<open>2^63 + 1\<close>, \<open>ENOMEM\<close> when
  the allocator fails).\<close>

theorem hole_write_counterexample:
  "heap1 1 = Some empty_file \<and> \<not> is_dir empty_file \<and> int (size_f empty_file) < 5 \<and>
   vtfs_write heap1 1 False 5 [] env_ok = Some (Inr (length ([] :: byte list)), heap1, 5) \<and>
   size_f empty_file \<noteq> nat 5 + length ([] :: byte list) \<and>
   fst (vtfs_read heap1 1 (int (size_f empty_file)) (nat 5 - size_f empty_file) True)
     \<noteq> Inr (replicate (nat 5 - size_f empty_file) 0) \<and>
   int (size_f empty_file) < 4 \<and>
   (\<exists>h' node'. vtfs_write heap1 1 False 4 [72, 105, 33] env_short = Some (Inr 1, h', 5) \<and>
      h' 1 = Some node' \<and> size_f node' = 5 \<and> size_f node' \<noteq> nat 4 + length [72, 105, 33 :: byte]) \<and>
   int (size_f empty_file) < 2 ^ 63 - 2 \<and>
   vtfs_write heap1 1 False (2 ^ 63 - 2) [72, 105, 33] env_ok = Some (Inl EFBIG, heap1, 2 ^ 63 - 2) \<and>
   vtfs_write heap1 1 False 5 [72, 105] env_nomem = Some (Inl ENOMEM, heap1, 5)"
proof -
  have z: "heap1 1 = Some empty_file \<and> int (size_f empty_file) < 5 \<and>
   vtfs_write heap1 1 False 5 [] env_ok = Some (Inr (length ([] :: byte list)), heap1, 5) \<and>
   size_f empty_file \<noteq> nat 5 + length ([] :: byte list) \<and>
   fst (vtfs_read heap1 1 (int (size_f empty_file)) (nat 5 - size_f empty_file) True)
     \<noteq> Inr (replicate (nat 5 - size_f empty_file) 0)"
    by (simp add: vtfs_write_def vtfs_read_def vtfs_data_node_def heap1_def empty_file_def)
  have h4: "int (size_f empty_file) < 4" by (simp add: empty_file_simps)
  from write_heap1_short [of 4]
  obtain h' node' where
    w: "vtfs_write heap1 1 False 4 [72, 105, 33] env_short = Some (Inr 1, h', to_loff (4 + 1))"
    and hd': "h' 1 = Some node'" and sz: "size_f node' = nat 4 + 1"
    by auto
  then have s: "\<exists>h' node'. vtfs_write heap1 1 False 4 [72, 105, 33] env_short = Some (Inr 1, h', 5) \<and>
      h' 1 = Some node' \<and> size_f node' = 5 \<and> size_f node' \<noteq> nat 4 + length [72, 105, 33 :: byte]"
    by (auto simp: to_loff_def)
  have hb: "int (size_f empty_file) < 2 ^ 63 - 2" by (simp add: empty_file_simps)
  have b: "vtfs_write heap1 1 False (2 ^ 63 - 2) [72, 105, 33] env_ok =
           Some (Inl EFBIG, heap1, 2 ^ 63 - 2)"
    by (rule write_heap1_efbig) (simp_all add: SIZE_MAX_def)
  have n: "vtfs_write heap1 1 False 5 [72, 105] env_nomem = Some (Inl ENOMEM, heap1, 5)"
    by (rule write_heap1_enomem) (simp_all add: env_nomem_def)
  show ?thesis using z empty_file_simps(1) h4 s hb b n by blast
qed

theorem hole_write_zero_fill_witness:
  "vtfs_data_node heap1 1 = Inr 1 \<and> heap1 1 = Some empty_file \<and> \<not> is_dir empty_file \<and>
   buf_ok empty_file \<and> int (size_f empty_file) < 3 \<and>
   nat 3 + length [72, 105 :: byte] \<le> 4096 * 2 ^ 0 \<and> 0 < length [72, 105 :: byte] \<and>
   nat 3 + length [72, 105 :: byte] \<le> SIZE_MAX \<and> 4096 * 2 ^ 0 \<le> SIZE_MAX \<and> krealloc_ok env_ok \<and>
   length [72, 105 :: byte] \<le> copy1 env_ok \<and>
   (\<exists>h' node' bs.
      vtfs_write heap1 1 False 3 [72, 105] env_ok = Some (Inr 2, h', 5) \<and>
      h' 1 = Some node' \<and> data node' = Some bs \<and>
      size_f node' = nat 3 + length [72, 105 :: byte] \<and>
      take 3 bs = replicate 3 0 \<and> take 2 (drop 3 bs) = [72, 105] \<and>
      fst (vtfs_read h' 1 (int (size_f empty_file)) 3 True) = Inr (replicate 3 0)) \<and>
   int (size_f empty_file) < 5 \<and> length ([] :: byte list) = 0 \<and>
   vtfs_write heap1 1 False 5 [] env_ok = Some (Inr 0, heap1, 5)"
proof -
  note nd = empty_file_simps(1)
  have p: "(3::int) = (if False then to_loff (int (size_f empty_file)) else 3)" by simp
  have hole: "int (size_f empty_file) < 3" by (simp add: empty_file_simps)
  have len: "0 < length [72, 105 :: byte]" by simp
  have fit: "nat 3 + length [72, 105 :: byte] \<le> SIZE_MAX" by (simp add: SIZE_MAX_def)
  have k1: "nat 3 + length [72, 105 :: byte] \<le> 4096 * 2 ^ 0" by simp
  have k2: "\<forall>j<0::nat. 4096 * 2 ^ j < nat 3 + length [72, 105 :: byte]" by simp
  have sm: "4096 * 2 ^ 0 \<le> SIZE_MAX" by (simp add: SIZE_MAX_def)
  have kr: "krealloc_ok env_ok" by (simp add: env_ok_def)
  have c1: "length [72, 105 :: byte] \<le> copy1 env_ok" by (simp add: env_ok_def)
  have m: "2 = (if length [72, 105 :: byte] \<le> copy1 env_ok then length [72, 105 :: byte]
            else min (copy2 env_ok) (length [72, 105 :: byte]))"
    using c1 by simp
  have gap: "3 = nat 3 - size_f empty_file" by (simp add: empty_file_simps)
  note t = hole_write_zero_fill [OF data_node_heap1 heap1_1 nd buf_ok_empty_file p hole refl
      empty_file_simps(4) k1 k2 m gap]
  have acc: "0 < length [72, 105 :: byte] \<and> nat 3 + length [72, 105 :: byte] \<le> SIZE_MAX \<and>
          (nat 3 + length [72, 105 :: byte] \<le> capacity empty_file \<or>
           4096 * 2 ^ 0 \<le> SIZE_MAX \<and> krealloc_ok env_ok)"
    using len fit sm kr by blast
  note A = mp [OF conjunct2 [OF conjunct2 [OF conjunct2 [OF t]]] acc]
  have A': "\<exists>h' node' bs.
      vtfs_write heap1 1 False 3 [72, 105] env_ok = Some (Inr 2, h', 5) \<and>
      h' 1 = Some node' \<and> data node' = Some bs \<and>
      size_f node' = nat 3 + length [72, 105 :: byte] \<and>
      take 3 bs = replicate 3 0 \<and> take 2 (drop 3 bs) = [72, 105] \<and>
      fst (vtfs_read h' 1 (int (size_f empty_file)) 3 True) = Inr (replicate 3 0)"
    using A by (simp add: to_loff_def empty_file_simps)
  have p5: "(5::int) = (if False then to_loff (int (size_f empty_file)) else 5)" by simp
  have hole5: "int (size_f empty_file) < 5" by (simp add: empty_file_simps)
  have k15: "nat 5 + length ([] :: byte list) \<le> 4096 * 2 ^ 0" by simp
  have k25: "\<forall>j<0::nat. 4096 * 2 ^ j < nat 5 + length ([] :: byte list)" by simp
  have l0: "length ([] :: byte list) = 0" by simp
  note t5 = hole_write_zero_fill [OF data_node_heap1 heap1_1 nd buf_ok_empty_file p5 hole5 refl
      empty_file_simps(4) k15 k25 refl refl, of env_ok]
  note B = mp [OF conjunct1 [OF t5] l0]
  show ?thesis
    by (intro conjI) (fact data_node_heap1 heap1_1 nd buf_ok_empty_file hole k1 len fit sm kr c1
        A' hole5 l0 B)+
qed


subsection \<open>Sibling chains and name lookup\<close>

lemma chain_unique: "chain h p xs \<Longrightarrow> chain h p ys \<Longrightarrow> xs = ys"
proof (induction xs arbitrary: p ys)
  case Nil
  then show ?case by (cases ys) auto
next
  case (Cons x xs)
  then show ?case by (cases ys) (auto split: option.splits)
qed

lemma chain_suffix: "chain h p (xs @ y # ys) \<Longrightarrow> chain h (Some y) (y # ys)"
proof (induction xs arbitrary: p)
  case Nil
  then show ?case by simp
next
  case (Cons x xs)
  then obtain n where "h x = Some n" "chain h (next_sibling n) (xs @ y # ys)"
    by (auto split: option.splits)
  then show ?case using Cons.IH by blast
qed

lemma chain_head_notin_tail:
  assumes "chain h p (x # xs)"
  shows "x \<notin> set xs"
proof
  assume again: "x \<in> set xs"
  from assms have whole: "chain h (Some x) (x # xs)" by simp
  from again obtain front rest where split: "xs = front @ x # rest"
    by (auto simp: in_set_conv_decomp)
  with assms have "chain h p ((x # front) @ x # rest)" by simp
  then have "chain h (Some x) (x # rest)" by (rule chain_suffix)
  with whole have "x # xs = x # rest" by (rule chain_unique)
  with split show False by simp
qed

lemma chain_distinct: "chain h p xs \<Longrightarrow> distinct xs"
proof (induction xs arbitrary: p)
  case Nil
  then show ?case by simp
next
  case (Cons x xs)
  from Cons.prems have "x \<notin> set xs" by (rule chain_head_notin_tail)
  moreover from Cons.prems obtain n where "h x = Some n" "chain h (next_sibling n) xs"
    by (auto split: option.splits)
  ultimately show ?case using Cons.IH by auto
qed

lemma chain_in_dom: "chain h p xs \<Longrightarrow> set xs \<subseteq> dom h"
  by (induction xs arbitrary: p) (auto split: option.splits)

lemma chain_upd_notin: "a \<notin> set xs \<Longrightarrow> chain (h(a := v)) p xs = chain h p xs"
  by (induction xs arbitrary: p) (auto split: option.splits)

lemma chain_upd_same_next:
  assumes "h a = Some n" and "next_sibling n' = next_sibling n"
  shows "chain (h(a \<mapsto> n')) p xs = chain h p xs"
  using assms by (induction xs arbitrary: p) (auto split: option.splits)

lemma find_child_chain:
  "chain h p xs \<Longrightarrow> find_child h p nm = Some (Inr (find (\<lambda>c. name_at h c = nm) xs))"
proof (induction xs arbitrary: p)
  case Nil
  then show ?case by (subst find_child.simps) simp
next
  case (Cons x xs)
  then obtain n where n: "p = Some x" "h x = Some n" "chain h (next_sibling n) xs"
    by (auto split: option.splits)
  show ?case
    using n Cons.IH [OF n(3)] by (subst find_child.simps) (simp add: name_at_def)
qed

lemma heap_restore:
  assumes "h p = Some pn" and "h a = None"
  shows "(h(a \<mapsto> n1, p \<mapsto> pn))(a := None) = h"
  using assms by (auto intro!: ext)

lemma create_inode_failure:
  assumes hp: "h p = Some pn" and kz: "kzalloc_ret env = Some a" and fresh: "a \<notin> dom h"
    and ni: "\<not> new_inode_ok env"
  shows "vtfs_create h (Some f) (Some p) nm md env =
           (Inl ENOMEM, h, Some (f\<lparr>next_ino := (next_ino f + 1) mod 2 ^ 64\<rparr>))"
proof -
  have ha: "h a = None" using fresh by auto
  have ap: "a \<noteq> p" using hp ha by auto
  show ?thesis
    using hp kz ha ap ni
    by (simp add: vtfs_create_def vtfs_alloc_node_def Let_def store_def vtfs_get_inode_def
        heap_restore)
qed

lemma mkdir_inode_failure:
  assumes ch: "children_of h p cs" and nocol: "\<forall>c\<in>set cs. name_at h c \<noteq> nm"
    and kz: "kzalloc_ret env = Some a" and fresh: "a \<notin> dom h"
    and ni: "\<not> new_inode_ok env"
  shows "vtfs_mkdir h (Some f) (Some p) nm md env =
           Some (Inl ENOMEM, h, Some (f\<lparr>next_ino := (next_ino f + 1) mod 2 ^ 64\<rparr>))"
proof -
  from ch obtain pn where hp: "h p = Some pn" and c: "chain h (first_child pn) cs"
    by (auto simp: children_of_def split: option.splits)
  have ha: "h a = None" using fresh by auto
  have ap: "a \<noteq> p" using hp ha by auto
  have "find (\<lambda>c. name_at h c = nm) cs = None" using nocol by (simp add: find_None_iff)
  with find_child_chain [OF c, of nm]
  have fc: "find_child h (first_child pn) nm = Some (Inr None)" by simp
  show ?thesis
    using hp kz ha ap ni fc
    by (simp add: vtfs_mkdir_def vtfs_alloc_node_def Let_def store_def vtfs_get_inode_def
        heap_restore; auto intro!: ext)
qed

lemma mkdir_collision:
  assumes ch: "children_of h p cs" and col: "\<exists>c\<in>set cs. name_at h c = nm"
  shows "vtfs_mkdir h (Some f) (Some p) nm md env = Some (Inl EEXIST, h, Some f)"
proof -
  from ch obtain pn where hp: "h p = Some pn" and c: "chain h (first_child pn) cs"
    by (auto simp: children_of_def split: option.splits)
  from col obtain x where "find (\<lambda>c. name_at h c = nm) cs = Some x"
    by (cases "find (\<lambda>c. name_at h c = nm) cs") (auto simp: find_None_iff)
  with find_child_chain [OF c, of nm]
  have fc: "find_child h (first_child pn) nm = Some (Inr (Some x))" by simp
  show ?thesis using hp fc by (simp add: vtfs_mkdir_def)
qed

lemma mkdir_success:
  assumes ch: "children_of h p cs" and nocol: "\<forall>c\<in>set cs. name_at h c \<noteq> nm"
    and kz: "kzalloc_ret env = Some a" and fresh: "a \<notin> dom h"
    and ni: "new_inode_ok env"
  shows "\<exists>h' f'. vtfs_mkdir h (Some f) (Some p) nm md env = Some (Inr a, h', Some f') \<and>
           children_of h' p (a # cs) \<and> name_at h' a = strscpy nm VTFS_FILE_NAME_LEN \<and>
           (\<forall>c. c \<noteq> a \<longrightarrow> name_at h' c = name_at h c)"
proof -
  from ch obtain pn where hp: "h p = Some pn" and c: "chain h (first_child pn) cs"
    by (auto simp: children_of_def split: option.splits)
  have ha: "h a = None" using fresh by auto
  have ap: "a \<noteq> p" using hp ha by auto
  have acs: "a \<notin> set cs" using chain_in_dom [OF c] fresh by auto
  have "find (\<lambda>c. name_at h c = nm) cs = None" using nocol by (simp add: find_None_iff)
  with find_child_chain [OF c, of nm]
  have fc: "find_child h (first_child pn) nm = Some (Inr None)" by simp
  define na where "na = zero_node\<lparr>name := strscpy nm VTFS_FILE_NAME_LEN, is_dir := True,
      mode := (if md AND S_IFMT = 0 then md OR S_IFDIR else md), data := None, size_f := 0,
      capacity := 0, ino := next_ino f, parent := Some p, next_sibling := first_child pn\<rparr>"
  define h' where "h' = h(a \<mapsto> na, p \<mapsto> pn\<lparr>first_child := Some a\<rparr>)"
  have md1: "(if (if md AND S_IFMT = 0 then md OR S_IFDIR else md) AND S_IFMT = 0
              then (if md AND S_IFMT = 0 then md OR S_IFDIR else md) OR S_IFDIR
              else (if md AND S_IFMT = 0 then md OR S_IFDIR else md))
             = (if md AND S_IFMT = 0 then md OR S_IFDIR else md)"
  proof (cases "md AND S_IFMT = 0")
    case True
    have "(md OR S_IFDIR) AND S_IFMT = (md AND S_IFMT) OR (S_IFDIR AND S_IFMT)"
      by (simp add: bit.conj_disj_distrib2)
    also have "\<dots> = S_IFDIR" using True by (simp add: S_IFMT_def S_IFDIR_def)
    finally have "(md OR S_IFDIR) AND S_IFMT \<noteq> 0" by (simp add: S_IFDIR_def)
    with True show ?thesis by simp
  next
    case False
    then show ?thesis by simp
  qed
  have r: "vtfs_mkdir h (Some f) (Some p) nm md env =
             Some (Inr a, h', Some (f\<lparr>next_ino := (next_ino f + 1) mod 2 ^ 64\<rparr>))"
    using hp kz ha ap ni fc md1
    by (simp add: vtfs_mkdir_def vtfs_alloc_node_def Let_def store_def vtfs_get_inode_def
        h'_def na_def)
  have c1: "chain (h(a \<mapsto> na)) (first_child pn) cs"
    using c acs by (simp add: chain_upd_notin)
  have hp1: "(h(a \<mapsto> na)) p = Some pn" using hp ap by simp
  have c2: "chain h' (first_child pn) cs" unfolding h'_def
    using chain_upd_same_next [where h = "h(a \<mapsto> na)" and a = p and n = pn
        and n' = "pn\<lparr>first_child := Some a\<rparr>" and p = "first_child pn" and xs = cs] hp1 c1
    by simp
  have "h' a = Some na" using ap by (simp add: h'_def)
  moreover have "next_sibling na = first_child pn" by (simp add: na_def)
  ultimately have c3: "chain h' (Some a) (a # cs)" using c2 by simp
  have ch': "children_of h' p (a # cs)" using c3 by (simp add: children_of_def h'_def)
  have n1: "name_at h' a = strscpy nm VTFS_FILE_NAME_LEN" using ap by (simp add: name_at_def h'_def na_def)
  have n2: "\<forall>c. c \<noteq> a \<longrightarrow> name_at h' c = name_at h c"
    using hp by (auto simp: name_at_def h'_def)
  show ?thesis using r ch' n1 n2 by blast
qed

text \<open>C5. If a child of the directory already has exactly the name asked for, \<open>vtfs_mkdir\<close>
  fails with \<open>EEXIST\<close> and changes nothing. Hence for a name shorter than the name field
  (\<open>"a"\<close> for one) and not yet present, a first \<open>vtfs_mkdir\<close> that succeeds followed by a
  second one: the second fails with \<open>EEXIST\<close>, and the directory holds exactly one entry of
  that name.\<close>

theorem mkdir_existing_name:
  assumes ch: "children_of h p cs"
  shows "((\<exists>c\<in>set cs. name_at h c = nm) \<longrightarrow>
            vtfs_mkdir h (Some f) (Some p) nm md env = Some (Inl EEXIST, h, Some f)) \<and>
         ((\<forall>c\<in>set cs. name_at h c \<noteq> nm) \<and> length nm < VTFS_FILE_NAME_LEN \<and>
          kzalloc_ret env = Some a \<and> a \<notin> dom h \<and> new_inode_ok env \<longrightarrow>
            (\<exists>h1 f1 cs1.
               vtfs_mkdir h (Some f) (Some p) nm md env = Some (Inr a, h1, Some f1) \<and>
               vtfs_mkdir h1 (Some f1) (Some p) nm md2 env2 = Some (Inl EEXIST, h1, Some f1) \<and>
               children_of h1 p cs1 \<and>
               length (filter (\<lambda>c. name_at h1 c = nm) cs1) = 1))"
proof (intro conjI impI)
  assume "\<exists>c\<in>set cs. name_at h c = nm"
  then show "vtfs_mkdir h (Some f) (Some p) nm md env = Some (Inl EEXIST, h, Some f)"
    by (rule mkdir_collision [OF ch])
next
  assume a: "(\<forall>c\<in>set cs. name_at h c \<noteq> nm) \<and> length nm < VTFS_FILE_NAME_LEN \<and>
          kzalloc_ret env = Some a \<and> a \<notin> dom h \<and> new_inode_ok env"
  then have nocol: "\<forall>c\<in>set cs. name_at h c \<noteq> nm" and kz: "kzalloc_ret env = Some a"
    and fresh: "a \<notin> dom h" and ni: "new_inode_ok env" and ln: "length nm < VTFS_FILE_NAME_LEN"
    by auto
  from mkdir_success [OF ch nocol kz fresh ni]
  obtain h1 f1 where r: "vtfs_mkdir h (Some f) (Some p) nm md env = Some (Inr a, h1, Some f1)"
    and ch1: "children_of h1 p (a # cs)" and n1: "name_at h1 a = strscpy nm VTFS_FILE_NAME_LEN"
    and n2: "\<forall>c. c \<noteq> a \<longrightarrow> name_at h1 c = name_at h c"
    by blast
  have na: "name_at h1 a = nm" using n1 ln by (simp add: strscpy_def)
  have col: "\<exists>c\<in>set (a # cs). name_at h1 c = nm" using na by simp
  have r2: "vtfs_mkdir h1 (Some f1) (Some p) nm md2 env2 = Some (Inl EEXIST, h1, Some f1)"
    by (rule mkdir_collision [OF ch1 col])
  have acs: "a \<notin> set cs"
  proof -
    from ch obtain pn where "h p = Some pn" "chain h (first_child pn) cs"
      by (auto simp: children_of_def split: option.splits)
    then show ?thesis using chain_in_dom fresh by blast
  qed
  have "\<forall>c\<in>set cs. name_at h1 c \<noteq> nm"
  proof
    fix c assume c: "c \<in> set cs"
    with acs have "c \<noteq> a" by auto
    with n2 have "name_at h1 c = name_at h c" by simp
    with nocol c show "name_at h1 c \<noteq> nm" by simp
  qed
  then have "filter (\<lambda>c. name_at h1 c = nm) cs = []"
    by (simp add: filter_empty_conv)
  then have cnt: "length (filter (\<lambda>c. name_at h1 c = nm) (a # cs)) = 1" using na by simp
  show "\<exists>h1 f1 cs1.
               vtfs_mkdir h (Some f) (Some p) nm md env = Some (Inr a, h1, Some f1) \<and>
               vtfs_mkdir h1 (Some f1) (Some p) nm md2 env2 = Some (Inl EEXIST, h1, Some f1) \<and>
               children_of h1 p cs1 \<and>
               length (filter (\<lambda>c. name_at h1 c = nm) cs1) = 1"
    using r r2 ch1 cnt by blast
qed

text \<open>C10. When \<open>vtfs_get_inode\<close> fails after the new node has been allocated and put at
  the head of the parent's children, \<open>vtfs_create\<close> and \<open>vtfs_mkdir\<close> take it out again,
  free it and return \<open>ENOMEM\<close>: the store is exactly the one before the call, so the
  parent's child list is unchanged and the node is gone. (The inode number taken from
  \<open>next_ino\<close> is not given back.)\<close>

theorem inode_failure_rollback:
  assumes ch: "children_of h p cs"
    and kz: "kzalloc_ret env = Some a" and fresh: "a \<notin> dom h"
    and ni: "\<not> new_inode_ok env"
  shows "vtfs_create h (Some f) (Some p) nm md env =
           (Inl ENOMEM, h, Some (f\<lparr>next_ino := (next_ino f + 1) mod 2 ^ 64\<rparr>)) \<and>
         ((\<forall>c\<in>set cs. name_at h c \<noteq> nm) \<longrightarrow>
          vtfs_mkdir h (Some f) (Some p) nm md env =
            Some (Inl ENOMEM, h, Some (f\<lparr>next_ino := (next_ino f + 1) mod 2 ^ 64\<rparr>)))"
proof (intro conjI impI)
  from ch obtain pn where hp: "h p = Some pn"
    by (auto simp: children_of_def split: option.splits)
  show "vtfs_create h (Some f) (Some p) nm md env =
           (Inl ENOMEM, h, Some (f\<lparr>next_ino := (next_ino f + 1) mod 2 ^ 64\<rparr>))"
    by (rule create_inode_failure [OF hp kz fresh ni])
next
  assume "\<forall>c\<in>set cs. name_at h c \<noteq> nm"
  then show "vtfs_mkdir h (Some f) (Some p) nm md env =
            Some (Inl ENOMEM, h, Some (f\<lparr>next_ino := (next_ino f + 1) mod 2 ^ 64\<rparr>))"
    by (rule mkdir_inode_failure [OF ch _ kz fresh ni])
qed

subsection \<open>Taking a node out of a chain\<close>

lemma chain_store:
  assumes "a \<notin> set xs \<or> (\<forall>m. next_sibling (f m) = next_sibling m)"
  shows "chain (store h a f) q xs = chain h q xs"
proof (cases "h a")
  case None
  then show ?thesis by (simp add: store_def)
next
  case (Some n)
  then have s: "store h a f = h(a \<mapsto> f n)" by (simp add: store_def)
  from assms show ?thesis
  proof
    assume "a \<notin> set xs"
    then show ?thesis unfolding s by (rule chain_upd_notin)
  next
    assume "\<forall>m. next_sibling (f m) = next_sibling m"
    then have "next_sibling (f n) = next_sibling n" by simp
    with Some show ?thesis unfolding s
      by (rule chain_upd_same_next [where n = n and n' = "f n"])
  qed
qed

lemma detach_loop_notfound:
  "chain h cur xs \<Longrightarrow> nd \<notin> set xs \<Longrightarrow> detach_loop h p nd prev cur = Some (Inr (h, None))"
proof (induction xs arbitrary: cur prev)
  case Nil
  then show ?case by (subst detach_loop.simps) simp
next
  case (Cons x xs)
  then obtain n where n: "cur = Some x" "h x = Some n" "chain h (next_sibling n) xs"
    by (auto split: option.splits)
  from Cons.prems(2) have ne: "x \<noteq> nd" "nd \<notin> set xs" by auto
  show ?case
    using n ne Cons.IH [OF n(3) ne(2), of "Some x"]
    by (subst detach_loop.simps) simp
qed

lemma detach_loop_found:
  "chain h cur (ys @ nd # zs) \<Longrightarrow> nd \<notin> set ys \<Longrightarrow> h nd = Some n \<Longrightarrow>
   detach_loop h p nd prev cur =
     Some (Inr (detached h p nd (if ys = [] then prev else Some (last ys)) n, Some nd))"
proof (induction ys arbitrary: cur prev)
  case Nil
  then show ?case by (subst detach_loop.simps) (simp add: detached_def Let_def)
next
  case (Cons y ys)
  then obtain yn where y: "cur = Some y" "h y = Some yn" "chain h (next_sibling yn) (ys @ nd # zs)"
    by (auto split: option.splits)
  from Cons.prems(2) have ne: "y \<noteq> nd" "nd \<notin> set ys" by auto
  have l: "(if ys = [] then Some y else Some (last ys)) = Some (last (y # ys))" by simp
  show ?case
    using y ne Cons.IH [OF y(3) ne(2) Cons.prems(3), of "Some y"] l
    by (subst detach_loop.simps) simp
qed

lemma chain_delete:
  assumes "chain h cur (ys @ nd # zs)" and "ys \<noteq> []" and "h nd = Some n"
  shows "chain (detached h p nd (Some (last ys)) n) cur (ys @ zs)"
  using assms
proof (induction ys arbitrary: cur)
  case Nil
  then show ?case by simp
next
  case (Cons y ys)
  from Cons.prems(1) obtain yn where y: "cur = Some y" "h y = Some yn"
      "chain h (next_sibling yn) (ys @ nd # zs)"
    by (auto split: option.splits)
  have dist: "distinct ((y # ys) @ nd # zs)" using chain_distinct [OF Cons.prems(1)] .
  show ?case
  proof (cases "ys = []")
    case True
    with y(3) have nx: "next_sibling yn = Some nd" and cz: "chain h (next_sibling n) zs"
      using Cons.prems(3) by auto
    from dist True have yz: "y \<notin> set zs" "nd \<notin> set zs" "y \<noteq> nd" by auto
    have d: "detached h p nd (Some (last (y # ys))) n =
          (h(y \<mapsto> yn\<lparr>next_sibling := next_sibling n\<rparr>))(nd \<mapsto> n\<lparr>parent := None, next_sibling := None\<rparr>)"
      using True y(2) Cons.prems(3) yz(3) by (simp add: detached_def store_def)
    have "chain (detached h p nd (Some (last (y # ys))) n) (next_sibling n) zs"
      unfolding d using cz yz by (simp add: chain_upd_notin)
    moreover have "detached h p nd (Some (last (y # ys))) n y = Some (yn\<lparr>next_sibling := next_sibling n\<rparr>)"
      unfolding d using yz(3) by simp
    ultimately show ?thesis using y(1) True by simp
  next
    case False
    from dist have ny: "y \<noteq> nd" "y \<notin> set ys" by auto
    from False have ly: "last (y # ys) = last ys" by simp
    have lin: "last ys \<in> set ys" using False by simp
    with ny have yl: "y \<noteq> last ys" by auto
    obtain ln where ln: "h (last ys) = Some ln"
      using chain_in_dom [OF y(3)] lin by auto
    have hy: "detached h p nd (Some (last ys)) n y = Some yn"
      using y(2) ny(1) yl ln Cons.prems(3) by (simp add: detached_def store_def)
    from Cons.IH [OF y(3) False Cons.prems(3)]
    have "chain (detached h p nd (Some (last ys)) n) (next_sibling yn) (ys @ zs)" .
    with hy y(1) show ?thesis unfolding ly by simp
  qed
qed

lemma store_field:
  assumes "h c = Some m" and "\<forall>x. sel (f x) = sel x"
  shows "\<exists>m'. store h a f c = Some m' \<and> sel m' = sel m"
  using assms by (auto simp: store_def split: option.splits)

lemma name_at_store:
  "\<forall>x. name (f x) = name x \<Longrightarrow> name_at (store h a f) c = name_at h c"
  by (auto simp: store_def name_at_def split: option.splits)

lemma name_at_detached: "name_at (detached h p nd prev n) c = name_at h c"
  by (cases prev) (simp_all add: detached_def name_at_store)

lemma detached_node:
  assumes "h nd = Some n"
  shows "\<exists>n'. detached h p nd prev n nd = Some n' \<and> parent n' = None \<and> next_sibling n' = None \<and>
           name n' = name n \<and> data n' = data n \<and> size_f n' = size_f n \<and>
           capacity n' = capacity n \<and> link_target n' = link_target n \<and> ino n' = ino n \<and>
           is_dir n' = is_dir n"
proof -
  define H where "H = (case prev of
              Some pv \<Rightarrow> store h pv (\<lambda>m. m\<lparr>next_sibling := next_sibling n\<rparr>)
            | None \<Rightarrow> store h p (\<lambda>m. m\<lparr>first_child := next_sibling n\<rparr>))"
  have "\<exists>m. H nd = Some m \<and> name m = name n \<and> data m = data n \<and> size_f m = size_f n \<and>
           capacity m = capacity n \<and> link_target m = link_target n \<and> ino m = ino n \<and>
           is_dir m = is_dir n"
    using assms by (cases prev) (auto simp: H_def store_def split: option.splits)
  then obtain m where m: "H nd = Some m" "name m = name n" "data m = data n" "size_f m = size_f n"
      "capacity m = capacity n" "link_target m = link_target n" "ino m = ino n" "is_dir m = is_dir n"
    by blast
  have "detached h p nd prev n = store H nd (\<lambda>m. m\<lparr>parent := None, next_sibling := None\<rparr>)"
    by (simp add: detached_def H_def)
  then have "detached h p nd prev n nd = Some (m\<lparr>parent := None, next_sibling := None\<rparr>)"
    using m(1) by (simp add: store_def)
  then show ?thesis using m by simp
qed

lemma detached_children:
  assumes hn: "h nd = Some n" and hp: "h p = Some pn" and c: "chain h (first_child pn) (ys @ nd # zs)"
  shows "children_of (detached h p nd (if ys = [] then None else Some (last ys)) n) p (ys @ zs)"
proof (cases "ys = []")
  case True
  with c hn have cz: "chain h (next_sibling n) zs" by simp
  from chain_distinct [OF c] True have nz: "nd \<notin> set zs" by simp
  define h1 where "h1 = store h p (\<lambda>m. m\<lparr>first_child := next_sibling n\<rparr>)"
  define h2 where "h2 = store h1 nd (\<lambda>m. m\<lparr>parent := None, next_sibling := None\<rparr>)"
  have d: "detached h p nd (if ys = [] then None else Some (last ys)) n = h2"
    using True by (simp add: detached_def h1_def h2_def)
  have c1: "chain h1 (next_sibling n) zs" unfolding h1_def using cz by (simp add: chain_store)
  have c2: "chain h2 (next_sibling n) zs" unfolding h2_def using c1 nz by (simp add: chain_store)
  have p1: "h1 p = Some (pn\<lparr>first_child := next_sibling n\<rparr>)" using hp by (simp add: h1_def store_def)
  from store_field [where h = h1 and c = p and m = "pn\<lparr>first_child := next_sibling n\<rparr>"
      and sel = first_child and f = "\<lambda>m. m\<lparr>parent := None, next_sibling := None\<rparr>" and a = nd] p1
  obtain m' where "h2 p = Some m'" "first_child m' = next_sibling n"
    unfolding h2_def by auto
  with c2 show ?thesis unfolding d using True by (simp add: children_of_def)
next
  case False
  define h2 where "h2 = detached h p nd (Some (last ys)) n"
  have d: "detached h p nd (if ys = [] then None else Some (last ys)) n = h2"
    using False by (simp add: h2_def)
  have c2: "chain h2 (first_child pn) (ys @ zs)" unfolding h2_def
    by (rule chain_delete [OF c False hn])
  define h1 where "h1 = store h (last ys) (\<lambda>m. m\<lparr>next_sibling := next_sibling n\<rparr>)"
  from store_field [where h = h and c = p and m = pn
      and sel = first_child and f = "\<lambda>m. m\<lparr>next_sibling := next_sibling n\<rparr>" and a = "last ys"] hp
  obtain m1 where m1: "h1 p = Some m1" "first_child m1 = first_child pn"
    unfolding h1_def by auto
  from store_field [where h = h1 and c = p and m = m1
      and sel = first_child and f = "\<lambda>m. m\<lparr>parent := None, next_sibling := None\<rparr>" and a = nd] m1(1)
  obtain m2 where "h2 p = Some m2" "first_child m2 = first_child m1"
    unfolding h2_def detached_def h1_def by auto
  with c2 m1 show ?thesis unfolding d by (simp add: children_of_def)
qed

text \<open>C6. \<open>vtfs_unlink\<close> fails with \<open>EISDIR\<close> on a directory node. Otherwise it looks for the
  node itself among the parent's children: if it is not there the result is \<open>ENOENT\<close> and
  nothing changes; if it is, the child list afterwards is the old one without that node
  (siblings, whatever their names, stay, in order), the node's \<open>parent\<close> and
  \<open>next_sibling\<close> are \<open>NULL\<close>, and the node is still in the store with its name and its
  buffer.\<close>

theorem unlink_by_identity:
  assumes hn: "h nd = Some n" and ch: "children_of h p cs"
  shows "(is_dir n \<longrightarrow> vtfs_unlink h (Some p) (Some nd) = Some (Inl EISDIR, h)) \<and>
         (\<not> is_dir n \<and> nd \<notin> set cs \<longrightarrow> vtfs_unlink h (Some p) (Some nd) = Some (Inl ENOENT, h)) \<and>
         (\<not> is_dir n \<and> nd \<in> set cs \<longrightarrow>
            (\<exists>h' n'. vtfs_unlink h (Some p) (Some nd) = Some (Inr (), h') \<and>
               children_of h' p (remove1 nd cs) \<and> set (remove1 nd cs) = set cs - {nd} \<and>
               h' nd = Some n' \<and> parent n' = None \<and> next_sibling n' = None \<and>
               name n' = name n \<and> data n' = data n \<and> size_f n' = size_f n \<and>
               capacity n' = capacity n \<and>
               (\<forall>c. name_at h' c = name_at h c)))"
proof (intro conjI impI)
  assume "is_dir n"
  then show "vtfs_unlink h (Some p) (Some nd) = Some (Inl EISDIR, h)"
    using hn by (simp add: vtfs_unlink_def)
next
  from ch obtain pn where hp: "h p = Some pn" and c: "chain h (first_child pn) cs"
    by (auto simp: children_of_def split: option.splits)
  {
    assume a: "\<not> is_dir n \<and> nd \<notin> set cs"
    then have "detach_loop h p nd None (first_child pn) = Some (Inr (h, None))"
      using detach_loop_notfound [OF c] by simp
    then show "vtfs_unlink h (Some p) (Some nd) = Some (Inl ENOENT, h)"
      using hn hp a by (simp add: vtfs_unlink_def)
  next
    assume a: "\<not> is_dir n \<and> nd \<in> set cs"
    then obtain ys zs where cs: "cs = ys @ nd # zs" and ny: "nd \<notin> set ys"
      by (meson split_list_first)
    define h' where "h' = detached h p nd (if ys = [] then None else Some (last ys)) n"
    have dl: "detach_loop h p nd None (first_child pn) = Some (Inr (h', Some nd))"
      using detach_loop_found [OF c [unfolded cs] ny hn, of p None] by (simp add: h'_def)
    have r: "vtfs_unlink h (Some p) (Some nd) = Some (Inr (), h')"
      using hn hp a dl by (simp add: vtfs_unlink_def)
    have rm: "remove1 nd cs = ys @ zs" using cs ny by (simp add: remove1_append)
    have ch': "children_of h' p (remove1 nd cs)" unfolding rm h'_def
      by (rule detached_children [OF hn hp c [unfolded cs]])
    have st: "set (remove1 nd cs) = set cs - {nd}"
      using chain_distinct [OF c] by simp
    from detached_node [where h = h and nd = nd and n = n and p = p
        and prev = "if ys = [] then None else Some (last ys)"] hn
    obtain n' where n': "h' nd = Some n'" "parent n' = None" "next_sibling n' = None"
        "name n' = name n" "data n' = data n" "size_f n' = size_f n" "capacity n' = capacity n"
      unfolding h'_def by blast
    have nm: "\<forall>c. name_at h' c = name_at h c" by (simp add: h'_def name_at_detached)
    show "\<exists>h' n'. vtfs_unlink h (Some p) (Some nd) = Some (Inr (), h') \<and>
               children_of h' p (remove1 nd cs) \<and> set (remove1 nd cs) = set cs - {nd} \<and>
               h' nd = Some n' \<and> parent n' = None \<and> next_sibling n' = None \<and>
               name n' = name n \<and> data n' = data n \<and> size_f n' = size_f n \<and>
               capacity n' = capacity n \<and>
               (\<forall>c. name_at h' c = name_at h c)"
      using r ch' st n' nm by blast
  }
qed

lemma heap2_simps:
  "heap2 0 = Some root_dir" "heap2 1 = Some empty_file" "heap2 2 = Some file_b" "3 \<notin> dom heap2"
  by (simp_all add: heap2_def)

lemma children_heap2: "children_of heap2 0 [2, 1]"
  by (simp add: children_of_def heap2_def root_dir_def file_b_def empty_file_def)

lemma children_heap2_file: "children_of heap2 2 []"
  by (simp add: children_of_def heap2_def file_b_def empty_file_def)

lemma names_heap2: "name_at heap2 2 = ''f''" "name_at heap2 1 = ''f''"
  by (simp_all add: name_at_def heap2_def file_b_def empty_file_def)

subsection \<open>Closed instances for the tree operations\<close>

theorem mkdir_existing_name_witness:
  "children_of heap2 0 [2, 1] \<and> name_at heap2 1 = ''f'' \<and>
   vtfs_mkdir heap2 (Some fs2) (Some 0) ''f'' 0x1ED tenv_ok = Some (Inl EEXIST, heap2, Some fs2) \<and>
   name_at heap2 2 \<noteq> ''a'' \<and> name_at heap2 1 \<noteq> ''a'' \<and> length ''a'' < VTFS_FILE_NAME_LEN \<and>
   kzalloc_ret tenv_ok = Some 3 \<and> 3 \<notin> dom heap2 \<and> new_inode_ok tenv_ok \<and>
   (\<exists>h1 f1 cs1.
       vtfs_mkdir heap2 (Some fs2) (Some 0) ''a'' 0x1ED tenv_ok = Some (Inr 3, h1, Some f1) \<and>
       vtfs_mkdir h1 (Some f1) (Some 0) ''a'' 0x1ED tenv_ok = Some (Inl EEXIST, h1, Some f1) \<and>
       children_of h1 0 cs1 \<and>
       length (filter (\<lambda>c. name_at h1 c = ''a'') cs1) = 1)"
proof -
  note t = mkdir_existing_name [OF children_heap2]
  have c1: "\<exists>c\<in>set [2, 1]. name_at heap2 c = ''f''" using names_heap2 by simp
  note A = mp [OF conjunct1 [OF t [where nm = "''f''"]] c1]
  have n: "name_at heap2 2 \<noteq> ''a''" "name_at heap2 1 \<noteq> ''a''" using names_heap2 by simp_all
  have l: "length ''a'' < VTFS_FILE_NAME_LEN" by (simp add: VTFS_FILE_NAME_LEN_def)
  have k: "kzalloc_ret tenv_ok = Some 3" "new_inode_ok tenv_ok" by (simp_all add: tenv_ok_def)
  have c2: "(\<forall>c\<in>set [2, 1]. name_at heap2 c \<noteq> ''a'') \<and> length ''a'' < VTFS_FILE_NAME_LEN \<and>
          kzalloc_ret tenv_ok = Some 3 \<and> 3 \<notin> dom heap2 \<and> new_inode_ok tenv_ok"
    using n l k heap2_simps(4) by simp
  note B = mp [OF conjunct2 [OF t [where nm = "''a''" and env = tenv_ok and a = 3]] c2]
  note A' = A [of fs2 "0x1ED" tenv_ok]
  note B' = B [of fs2 "0x1ED" "0x1ED" tenv_ok]
  note h4 = heap2_simps(4)
  note n2 = names_heap2(2)
  show ?thesis
    by (intro conjI) (fact children_heap2 n2 A' n l k h4 B')+
qed

theorem inode_failure_rollback_witness:
  "children_of heap2 0 [2, 1] \<and> kzalloc_ret tenv_no_inode = Some 3 \<and> 3 \<notin> dom heap2 \<and>
   \<not> new_inode_ok tenv_no_inode \<and> name_at heap2 2 \<noteq> ''a'' \<and> name_at heap2 1 \<noteq> ''a'' \<and>
   vtfs_create heap2 (Some fs2) (Some 0) ''a'' 0x81A4 tenv_no_inode =
     (Inl ENOMEM, heap2, Some (fs2\<lparr>next_ino := (next_ino fs2 + 1) mod 2 ^ 64\<rparr>)) \<and>
   vtfs_mkdir heap2 (Some fs2) (Some 0) ''a'' 0x1ED tenv_no_inode =
     Some (Inl ENOMEM, heap2, Some (fs2\<lparr>next_ino := (next_ino fs2 + 1) mod 2 ^ 64\<rparr>))"
proof -
  have k: "kzalloc_ret tenv_no_inode = Some 3" "\<not> new_inode_ok tenv_no_inode"
    by (simp_all add: tenv_no_inode_def)
  note t = inode_failure_rollback [OF children_heap2 k(1) heap2_simps(4) k(2)]
  have n: "name_at heap2 2 \<noteq> ''a''" "name_at heap2 1 \<noteq> ''a''" using names_heap2 by simp_all
  then have c: "\<forall>c\<in>set [2, 1]. name_at heap2 c \<noteq> ''a''" by simp
  note A = conjunct1 [OF t]
  note B = mp [OF conjunct2 [OF t [where nm = "''a''"]] c]
  note A' = A [of fs2 "''a''" "0x81A4"]
  note B' = B [of fs2 "0x1ED"]
  note h4 = heap2_simps(4)
  show ?thesis
    by (intro conjI) (fact children_heap2 k h4 n A' B')+
qed

theorem unlink_by_identity_witness:
  "heap2 0 = Some root_dir \<and> heap2 1 = Some empty_file \<and> children_of heap2 0 [2, 1] \<and>
   children_of heap2 2 [] \<and> is_dir root_dir \<and> \<not> is_dir empty_file \<and>
   vtfs_unlink heap2 (Some 0) (Some 0) = Some (Inl EISDIR, heap2) \<and>
   vtfs_unlink heap2 (Some 2) (Some 1) = Some (Inl ENOENT, heap2) \<and>
   (\<exists>h' n'. vtfs_unlink heap2 (Some 0) (Some 1) = Some (Inr (), h') \<and>
       children_of h' 0 (remove1 1 [2, 1]) \<and> set (remove1 1 [2, 1 :: addr]) = set [2, 1] - {1} \<and>
       h' 1 = Some n' \<and> parent n' = None \<and> next_sibling n' = None \<and>
       name n' = name empty_file \<and> data n' = data empty_file \<and>
       size_f n' = size_f empty_file \<and> capacity n' = capacity empty_file \<and>
       (\<forall>c. name_at h' c = name_at heap2 c))"
proof -
  have d: "is_dir root_dir" "\<not> is_dir empty_file"
    by (simp_all add: root_dir_def zero_node_def empty_file_def)
  note t0 = unlink_by_identity [OF heap2_simps(1) children_heap2]
  note A = mp [OF conjunct1 [OF t0] d(1)]
  note t1 = unlink_by_identity [OF heap2_simps(2) children_heap2_file]
  have c1: "\<not> is_dir empty_file \<and> 1 \<notin> set ([] :: addr list)" using d by simp
  note B = mp [OF conjunct1 [OF conjunct2 [OF t1]] c1]
  note t2 = unlink_by_identity [OF heap2_simps(2) children_heap2]
  have c2: "\<not> is_dir empty_file \<and> 1 \<in> set [2, 1 :: addr]" using d by simp
  note C = mp [OF conjunct2 [OF conjunct2 [OF t2]] c2]
  note h0 = heap2_simps(1)
  note h1 = heap2_simps(2)
  show ?thesis
    by (intro conjI) (fact h0 h1 children_heap2 children_heap2_file d A B C)+
qed

subsection \<open>Names\<close>

lemma alloc_node_name:
  "vtfs_alloc_node h (Some a) nm isdir md = (h', r) \<Longrightarrow>
   r = Some a \<and> name_at h' a = take (VTFS_FILE_NAME_LEN - 1) nm \<and> length (name_at h' a) \<le> 254"
  by (auto simp: vtfs_alloc_node_def Let_def name_at_def strscpy_def VTFS_FILE_NAME_LEN_def)

lemma create_success:
  assumes ch: "children_of h p cs"
    and kz: "kzalloc_ret env = Some a" and fresh: "a \<notin> dom h"
    and ni: "new_inode_ok env"
  shows "\<exists>h' f'. vtfs_create h (Some f) (Some p) nm md env = (Inr a, h', Some f') \<and>
           children_of h' p (a # cs) \<and> name_at h' a = strscpy nm VTFS_FILE_NAME_LEN \<and>
           (\<forall>c. c \<noteq> a \<longrightarrow> name_at h' c = name_at h c)"
proof -
  from ch obtain pn where hp: "h p = Some pn" and c: "chain h (first_child pn) cs"
    by (auto simp: children_of_def split: option.splits)
  have ha: "h a = None" using fresh by auto
  have ap: "a \<noteq> p" using hp ha by auto
  have acs: "a \<notin> set cs" using chain_in_dom [OF c] fresh by auto
  define na where "na = zero_node\<lparr>name := strscpy nm VTFS_FILE_NAME_LEN, is_dir := False,
      mode := (if md AND S_IFMT = 0 then md OR S_IFREG else md), data := None, size_f := 0,
      capacity := 0, ino := next_ino f, parent := Some p, next_sibling := first_child pn\<rparr>"
  define h' where "h' = h(a \<mapsto> na, p \<mapsto> pn\<lparr>first_child := Some a\<rparr>)"
  have r: "vtfs_create h (Some f) (Some p) nm md env =
             (Inr a, h', Some (f\<lparr>next_ino := (next_ino f + 1) mod 2 ^ 64\<rparr>))"
    using hp kz ha ap ni
    by (simp add: vtfs_create_def vtfs_alloc_node_def Let_def store_def vtfs_get_inode_def
        h'_def na_def)
  have c1: "chain (h(a \<mapsto> na)) (first_child pn) cs"
    using c acs by (simp add: chain_upd_notin)
  have hp1: "(h(a \<mapsto> na)) p = Some pn" using hp ap by simp
  have c2: "chain h' (first_child pn) cs" unfolding h'_def
    using chain_upd_same_next [where h = "h(a \<mapsto> na)" and a = p and n = pn
        and n' = "pn\<lparr>first_child := Some a\<rparr>" and p = "first_child pn" and xs = cs] hp1 c1
    by simp
  have "h' a = Some na" using ap by (simp add: h'_def)
  moreover have "next_sibling na = first_child pn" by (simp add: na_def)
  ultimately have c3: "chain h' (Some a) (a # cs)" using c2 by simp
  have ch': "children_of h' p (a # cs)" using c3 by (simp add: children_of_def h'_def)
  have n1: "name_at h' a = strscpy nm VTFS_FILE_NAME_LEN" using ap by (simp add: name_at_def h'_def na_def)
  have n2: "\<forall>c. c \<noteq> a \<longrightarrow> name_at h' c = name_at h c"
    using hp by (auto simp: name_at_def h'_def)
  show ?thesis using r ch' n1 n2 by blast
qed

lemma lookup_children:
  assumes "children_of h p cs"
  shows "vtfs_lookup h (Some p) nm env =
     Some (case find (\<lambda>c. name_at h c = nm) cs of
             None \<Rightarrow> Inr None
           | Some child \<Rightarrow>
               (case vtfs_get_inode h child (new_inode_ok env) of
                  Inl e \<Rightarrow> Inl e | Inr None \<Rightarrow> Inl ENOMEM | Inr (Some i) \<Rightarrow> Inr (Some i)))"
proof -
  from assms obtain pn where hp: "h p = Some pn" and c: "chain h (first_child pn) cs"
    by (auto simp: children_of_def split: option.splits)
  show ?thesis using hp find_child_chain [OF c, of nm]
    by (auto simp: vtfs_lookup_def split: option.splits sum.splits)
qed

text \<open>C9 at a name of exactly 255 bytes, the length \<open>vtfs_statfs\<close> reports as the longest
  allowed: \<open>vtfs_create\<close> succeeds, the node's stored name is the first 254 bytes only,
  and \<open>vtfs_lookup\<close> of the very name that was created finds nothing.\<close>

theorem name_of_255_bytes_truncated:
  "length (replicate 255 CHR ''x'') = VTFS_FILE_NAME_LEN \<and>
   fst (vtfs_create heap2 (Some fs2) (Some 0) (replicate 255 CHR ''x'') 0x81A4 tenv_ok) = Inr 3 \<and>
   name_at (fst (snd (vtfs_create heap2 (Some fs2) (Some 0) (replicate 255 CHR ''x'') 0x81A4 tenv_ok))) 3
     = replicate 254 CHR ''x'' \<and>
   vtfs_lookup (fst (snd (vtfs_create heap2 (Some fs2) (Some 0) (replicate 255 CHR ''x'') 0x81A4 tenv_ok)))
     (Some 0) (replicate 255 CHR ''x'') tenv_ok = Some (Inr None)"
proof -
  have k: "kzalloc_ret tenv_ok = Some 3" "new_inode_ok tenv_ok" by (simp_all add: tenv_ok_def)
  from create_success [OF children_heap2 k(1) heap2_simps(4) k(2)]
  obtain h' f' where r: "vtfs_create heap2 (Some fs2) (Some 0) (replicate 255 CHR ''x'') 0x81A4 tenv_ok
        = (Inr 3, h', Some f')"
    and ch: "children_of h' 0 [3, 2, 1]"
    and n1: "name_at h' 3 = strscpy (replicate 255 CHR ''x'') VTFS_FILE_NAME_LEN"
    and n2: "\<forall>c. c \<noteq> 3 \<longrightarrow> name_at h' c = name_at heap2 c"
    by blast
  have n3: "name_at h' 3 = replicate 254 CHR ''x''"
    using n1 by (simp add: strscpy_def VTFS_FILE_NAME_LEN_def)
  have n21: "name_at h' 2 = ''f''" "name_at h' 1 = ''f''" using n2 names_heap2 by simp_all
  have ne: "''f'' \<noteq> replicate 255 CHR ''x''"
  proof
    assume "''f'' = replicate 255 CHR ''x''"
    then have "length ''f'' = length (replicate 255 CHR ''x'')" by (rule arg_cong)
    then show False by simp
  qed
  have f: "find (\<lambda>c. name_at h' c = replicate 255 CHR ''x'') [3, 2, 1] = None"
    using n3 n21 ne by (simp add: find_None_iff)
  have l: "vtfs_lookup h' (Some 0) (replicate 255 CHR ''x'') tenv_ok = Some (Inr None)"
    using lookup_children [OF ch, of "replicate 255 CHR ''x''" tenv_ok] f by simp
  show ?thesis using r n3 l by (simp add: VTFS_FILE_NAME_LEN_def)
qed

lemma skip_children_chain:
  "chain h p xs \<Longrightarrow> \<exists>q. skip_children h p k = Inr q \<and> chain h q (drop k xs)"
proof (induction k arbitrary: p xs)
  case 0
  then show ?case by simp
next
  case (Suc k)
  show ?case
  proof (cases xs)
    case Nil
    with Suc.prems show ?thesis by simp
  next
    case (Cons x ys)
    with Suc.prems obtain n where n: "p = Some x" "h x = Some n" "chain h (next_sibling n) ys"
      by (auto split: option.splits)
    from Suc.IH [OF n(3)] show ?thesis using n Cons by simp
  qed
qed

lemma emit_children_chain:
  "chain h p xs \<Longrightarrow> 0 \<le> pos \<Longrightarrow> pos + int (length xs) < 2 ^ 63 \<Longrightarrow>
   emit_children h p room pos =
     Inr (map (dirent_at h) (take room xs), pos + int (min room (length xs)))"
proof (induction xs arbitrary: p room pos)
  case Nil
  then show ?case by simp
next
  case (Cons x xs)
  then obtain n where n: "p = Some x" "h x = Some n" "chain h (next_sibling n) xs"
    by (auto split: option.splits)
  show ?case
  proof (cases room)
    case 0
    with n show ?thesis by simp
  next
    case (Suc r)
    have tl: "to_loff (pos + 1) = pos + 1"
      using Cons.prems(2,3) by (intro to_loff_id) auto
    have "emit_children h (next_sibling n) r (pos + 1) =
            Inr (map (dirent_at h) (take r xs), pos + 1 + int (min r (length xs)))"
      using Cons.prems(2,3) by (intro Cons.IH [OF n(3)]) auto
    with n Suc tl show ?thesis by (simp add: dirent_at_def)
  qed
qed

lemma iterate_eq:
  assumes isd: "S_ISDIR (i_mode dir)" and ip: "i_private dir = Some d"
    and ch: "children_of h d cs" and p0: "0 \<le> pos" and plt: "pos < 2 ^ 32 + 2"
    and len: "length cs < 2 ^ 62"
  shows "vtfs_iterate h dir pino pos room =
           Inr (take room (drop (nat pos) (listing h dir pino cs)),
                pos + int (length (take room (drop (nat pos) (listing h dir pino cs)))))"
proof -
  from ch obtain dn where hd: "h d = Some dn" and c: "chain h (first_child dn) cs"
    by (auto simp: children_of_def split: option.splits)
  define E where "E = map (dirent_at h) cs"
  have L: "listing h dir pino cs =
     \<lparr>d_name = ''.'', d_ino = i_ino dir, d_type = DT_DIR\<rparr> #
     \<lparr>d_name = ''..'', d_ino = pino, d_type = DT_DIR\<rparr> # E"
    by (simp add: listing_def E_def)
  have lE: "length E = length cs" by (simp add: E_def)
  have em: "\<And>room. emit_children h (first_child dn) room 2 =
      Inr (take room E, 2 + int (min room (length cs)))"
    using emit_children_chain [OF c, of 2] len by (simp add: E_def take_map)
  have sk0: "skip_children h (first_child dn) 0 = Inr (first_child dn)" by simp
  consider (zero) "pos = 0" | (one) "pos = 1" | (more) "2 \<le> pos" using p0 by linarith
  then show ?thesis
  proof cases
    case zero
    consider (r0) "room = 0" | (r1) "room = 1" | (r2) "2 \<le> room" by linarith
    then show ?thesis
    proof cases
      case r0
      with zero isd ip show ?thesis by (simp add: vtfs_iterate_def dir_emit_dots_def)
    next
      case r1
      with zero isd ip show ?thesis by (simp add: vtfs_iterate_def dir_emit_dots_def L)
    next
      case r2
      then obtain r where r: "room = Suc (Suc r)" by (metis Suc_leD Suc_le_D numeral_2_eq_2 Suc_le_mono)
      have "vtfs_iterate h dir pino pos room =
          Inr ([\<lparr>d_name = ''.'', d_ino = i_ino dir, d_type = DT_DIR\<rparr>,
                \<lparr>d_name = ''..'', d_ino = pino, d_type = DT_DIR\<rparr>] @ take r E,
               2 + int (min r (length cs)))"
        using zero isd ip hd r em [of r]
        by (simp add: vtfs_iterate_def dir_emit_dots_def)
      then show ?thesis using zero r lE by (simp add: L)
    qed
  next
    case one
    show ?thesis
    proof (cases room)
      case 0
      with one isd ip show ?thesis by (simp add: vtfs_iterate_def dir_emit_dots_def)
    next
      case (Suc r)
      have "vtfs_iterate h dir pino pos room =
          Inr ([\<lparr>d_name = ''..'', d_ino = pino, d_type = DT_DIR\<rparr>] @ take r E,
               2 + int (min r (length cs)))"
        using one isd ip hd Suc em [of r]
        by (simp add: vtfs_iterate_def dir_emit_dots_def)
      then show ?thesis using one Suc lE by (simp add: L)
    qed
  next
    case more
    define idx where "idx = nat (pos - 2)"
    have md: "nat ((pos - 2) mod 2 ^ 32) = idx"
      using more plt by (simp add: idx_def)
    from skip_children_chain [OF c, of idx]
    obtain q where q: "skip_children h (first_child dn) idx = Inr q" "chain h q (drop idx cs)"
      by blast
    have b: "pos + int (length (drop idx cs)) < 2 ^ 63"
      using plt len by simp
    have e: "emit_children h q room pos =
        Inr (map (dirent_at h) (take room (drop idx cs)), pos + int (min room (length (drop idx cs))))"
      by (rule emit_children_chain [OF q(2) p0 b])
    have dots: "dir_emit_dots dir pino pos room = (True, [], pos, room)"
      using more by (simp add: dir_emit_dots_def)
    have r: "vtfs_iterate h dir pino pos room =
        Inr (map (dirent_at h) (take room (drop idx cs)), pos + int (min room (length (drop idx cs))))"
      using isd ip hd dots md q(1) e by (simp add: vtfs_iterate_def)
    have np: "nat pos = Suc (Suc idx)" using more by (simp add: idx_def)
    have dr: "drop (nat pos) (listing h dir pino cs) = map (dirent_at h) (drop idx cs)"
      unfolding np L by (simp add: E_def drop_map)
    show ?thesis unfolding r dr by (simp add: take_map)
  qed
qed

text \<open>C7, as amended. In a directory with fewer than \<open>2^32\<close> children that does not change,
  let a call of \<open>vtfs_iterate\<close> start at a cursor \<open>pos\<close> between 0 and the number of
  children plus 2 and stop after \<open>r1\<close> entries. It emits the entries of the full
  listing (\<open>.\<close>, \<open>..\<close>, then the children in list order, so position \<open>n \<ge> 2\<close> is child
  \<open>n - 2\<close>) from index \<open>pos\<close> on, and moves the cursor by one per entry. A second call from
  the cursor it left emits what follows, and the two together are exactly what one call
  with room for both emits: nothing twice, nothing left out.\<close>

theorem iterate_resumes:
  assumes isd: "S_ISDIR (i_mode dir)" and ip: "i_private dir = Some d"
    and ch: "children_of h d cs" and small: "length cs < 2 ^ 32"
    and p0: "0 \<le> pos" and pmax: "pos \<le> int (length cs) + 2"
    and first: "vtfs_iterate h dir pino pos r1 = Inr (es1, p1)"
  shows "es1 = take r1 (drop (nat pos) (listing h dir pino cs)) \<and> p1 = pos + int (length es1) \<and>
         0 \<le> p1 \<and> p1 \<le> int (length cs) + 2 \<and>
         (\<exists>es2 p2. vtfs_iterate h dir pino p1 r2 = Inr (es2, p2) \<and>
            es2 = take r2 (drop (nat p1) (listing h dir pino cs)) \<and>
            vtfs_iterate h dir pino pos (r1 + r2) = Inr (es1 @ es2, p2) \<and>
            es1 @ es2 = take (r1 + r2) (drop (nat pos) (listing h dir pino cs))) \<and>
         distinct cs"
proof -
  define L where "L = listing h dir pino cs"
  have lL: "length L = length cs + 2" by (simp add: L_def listing_def)
  have len: "length cs < 2 ^ 62" using small by (rule less_trans) simp
  have si: "int (length cs) < 2 ^ 32" using small by simp
  have plt: "pos < 2 ^ 32 + 2" using pmax si by linarith
  note eq1 = iterate_eq [OF isd ip ch p0 plt len, of pino, folded L_def]
  from first eq1 [of r1]
  have "(es1, p1) = (take r1 (drop (nat pos) L), pos + int (length (take r1 (drop (nat pos) L))))"
    by (simp only: sum.inject)
  then have es1: "es1 = take r1 (drop (nat pos) L)"
    and p1': "p1 = pos + int (length (take r1 (drop (nat pos) L)))" by (simp_all only: prod.inject)
  have p1: "p1 = pos + int (length es1)" using p1' unfolding es1 .
  have l1: "length es1 \<le> length cs + 2 - nat pos" unfolding es1 using lL by simp
  have p10: "0 \<le> p1" using p1 p0 by simp
  have p1max: "p1 \<le> int (length cs) + 2" using p1 l1 p0 pmax by linarith
  have p1lt: "p1 < 2 ^ 32 + 2" using p1max si by linarith
  note eq2 = iterate_eq [OF isd ip ch p10 p1lt len, of pino, folded L_def]
  define es2 where "es2 = take r2 (drop (nat p1) L)"
  have np1: "nat p1 = nat pos + length es1" using p1 p0 by (simp add: nat_add_distrib)
  have le1: "length es1 = min r1 (length L - nat pos)" unfolding es1 by simp
  have dd: "drop (nat p1) L = drop r1 (drop (nat pos) L)"
  proof (cases "r1 \<le> length L - nat pos")
    case True
    then have "length es1 = r1" using le1 by simp
    then show ?thesis using np1 by (simp add: add.commute)
  next
    case False
    then have "length es1 = length L - nat pos" using le1 by simp
    with np1 have a: "length L \<le> nat p1" by linarith
    from False have b: "length L \<le> r1 + nat pos" by linarith
    from a b show ?thesis by simp
  qed
  have app: "es1 @ es2 = take (r1 + r2) (drop (nat pos) L)"
    unfolding es1 es2_def dd by (simp add: take_add)
  have lapp: "int (length (take (r1 + r2) (drop (nat pos) L))) = int (length es1) + int (length es2)"
    using app by (metis length_append of_nat_add)
  have r2: "vtfs_iterate h dir pino p1 r2 = Inr (es2, p1 + int (length es2))"
    using eq2 [of r2] by (simp add: es2_def)
  have r12: "vtfs_iterate h dir pino pos (r1 + r2) = Inr (es1 @ es2, p1 + int (length es2))"
    using eq1 [of "r1 + r2"] app lapp p1 by simp
  from ch obtain dn where "h d = Some dn" "chain h (first_child dn) cs"
    by (auto simp: children_of_def split: option.splits)
  then have dist: "distinct cs" using chain_distinct by blast
  show ?thesis
    using es1 p1 p10 p1max r2 r12 app dist es2_def unfolding L_def by blast
qed

lemma chain_many_files: "1 \<le> i \<Longrightarrow> i \<le> N \<Longrightarrow> chain (many_files N) (Some i) [i..<Suc N]"
proof (induction "N - i" arbitrary: i)
  case 0
  then have "i = N" by simp
  with 0 show ?case by (simp add: many_files_def)
next
  case (Suc k)
  then have lt: "i < N" by simp
  have "chain (many_files N) (Some (Suc i)) [Suc i..<Suc N]"
    using Suc lt by (intro Suc.hyps(1)) auto
  moreover have "[i..<Suc N] = i # [Suc i..<Suc N]" using lt by (simp add: upt_conv_Cons)
  ultimately show ?case using Suc.prems lt by (simp add: many_files_def)
qed

lemma children_many_files: "1 \<le> N \<Longrightarrow> children_of (many_files N) 0 [1..<Suc N]"
  using chain_many_files [of 1 N] by (simp add: children_of_def many_files_def)

lemma S_ISDIR_root_inode: "S_ISDIR (i_mode root_inode)"
  by (simp add: S_ISDIR_def root_inode_def S_IFMT_def S_IFDIR_def)

text \<open>C7 as stated fails in a directory of \<open>2^32\<close> files: one uninterrupted call emits the
  whole listing and leaves the cursor at \<open>2^32 + 2\<close>; a call resumed from that cursor,
  where nothing remains, emits the first child again (\<open>uint idx = pos - 2\<close> is 0).\<close>

theorem iterate_resume_counterexample:
  "S_ISDIR (i_mode root_inode) \<and> i_private root_inode = Some 0 \<and>
   children_of (many_files (2 ^ 32)) 0 [1..<Suc (2 ^ 32)] \<and>
   vtfs_iterate (many_files (2 ^ 32)) root_inode 1 0 (2 ^ 32 + 2) =
     Inr (listing (many_files (2 ^ 32)) root_inode 1 [1..<Suc (2 ^ 32)], 2 ^ 32 + 2) \<and>
   vtfs_iterate (many_files (2 ^ 32)) root_inode 1 (2 ^ 32 + 2) 1 =
     Inr ([dirent_at (many_files (2 ^ 32)) 1], 2 ^ 32 + 3)"
proof -
  have ip: "i_private root_inode = Some 0" by (simp add: root_inode_def)
  have ch: "children_of (many_files (2 ^ 32)) 0 [1..<Suc (2 ^ 32)]"
    by (rule children_many_files) simp
  have len: "length [1..<Suc (2 ^ 32)] < 2 ^ 62" by simp
  have a: "vtfs_iterate (many_files (2 ^ 32)) root_inode 1 0 (2 ^ 32 + 2) =
     Inr (listing (many_files (2 ^ 32)) root_inode 1 [1..<Suc (2 ^ 32)], 2 ^ 32 + 2)"
    using iterate_eq [OF S_ISDIR_root_inode ip ch _ _ len, of 0 1 "2 ^ 32 + 2"]
    by (simp add: listing_def)
  have tl: "to_loff (2 ^ 32 + 2 + 1) = 2 ^ 32 + 3" by (simp add: to_loff_def)
  have b: "vtfs_iterate (many_files (2 ^ 32)) root_inode 1 (2 ^ 32 + 2) 1 =
     Inr ([dirent_at (many_files (2 ^ 32)) 1], 2 ^ 32 + 3)"
    using S_ISDIR_root_inode ip tl
    by (simp add: vtfs_iterate_def dir_emit_dots_def many_files_def dirent_at_def)
  show ?thesis using S_ISDIR_root_inode ip ch a b by simp
qed

lemma listing_heap2:
  "listing heap2 root_inode 1 [2, 1] =
     [\<lparr>d_name = ''.'', d_ino = 1, d_type = DT_DIR\<rparr>, \<lparr>d_name = ''..'', d_ino = 1, d_type = DT_DIR\<rparr>,
      \<lparr>d_name = ''f'', d_ino = 3, d_type = DT_REG\<rparr>, \<lparr>d_name = ''f'', d_ino = 2, d_type = DT_REG\<rparr>]"
  by (simp add: listing_def dirent_at_def heap2_def file_b_def empty_file_def entry_of_def
      root_inode_def strnlen_def VTFS_FILE_NAME_LEN_def)

theorem iterate_resumes_witness:
  "S_ISDIR (i_mode root_inode) \<and> i_private root_inode = Some 0 \<and> children_of heap2 0 [2, 1] \<and>
   length [2, 1 :: addr] < 2 ^ 32 \<and> (0 :: int) \<le> 0 \<and> (0 :: int) \<le> int (length [2, 1 :: addr]) + 2 \<and>
   vtfs_iterate heap2 root_inode 1 0 3 =
     Inr ([\<lparr>d_name = ''.'', d_ino = 1, d_type = DT_DIR\<rparr>, \<lparr>d_name = ''..'', d_ino = 1, d_type = DT_DIR\<rparr>,
           \<lparr>d_name = ''f'', d_ino = 3, d_type = DT_REG\<rparr>], 3) \<and>
   (\<exists>es2 p2. vtfs_iterate heap2 root_inode 1 3 5 = Inr (es2, p2) \<and>
      es2 = [\<lparr>d_name = ''f'', d_ino = 2, d_type = DT_REG\<rparr>] \<and>
      vtfs_iterate heap2 root_inode 1 0 (3 + 5) =
        Inr ([\<lparr>d_name = ''.'', d_ino = 1, d_type = DT_DIR\<rparr>, \<lparr>d_name = ''..'', d_ino = 1, d_type = DT_DIR\<rparr>,
              \<lparr>d_name = ''f'', d_ino = 3, d_type = DT_REG\<rparr>] @ es2, p2))"
proof -
  have ip: "i_private root_inode = Some 0" by (simp add: root_inode_def)
  have small: "length [2, 1 :: addr] < 2 ^ 32" by simp
  have len: "length [2, 1 :: addr] < 2 ^ 62" by simp
  have p0: "(0 :: int) \<le> 0" by simp
  have pmax: "(0 :: int) \<le> int (length [2, 1 :: addr]) + 2" by simp
  have first: "vtfs_iterate heap2 root_inode 1 0 3 =
     Inr ([\<lparr>d_name = ''.'', d_ino = 1, d_type = DT_DIR\<rparr>, \<lparr>d_name = ''..'', d_ino = 1, d_type = DT_DIR\<rparr>,
           \<lparr>d_name = ''f'', d_ino = 3, d_type = DT_REG\<rparr>], 3)"
    using iterate_eq [OF S_ISDIR_root_inode ip children_heap2 p0 _ len, of 1 3]
    unfolding listing_heap2 by simp
  note t = iterate_resumes [OF S_ISDIR_root_inode ip children_heap2 small p0 pmax first, of 5]
  from t obtain es2 p2 where a: "vtfs_iterate heap2 root_inode 1 3 5 = Inr (es2, p2)"
    and b: "es2 = take 5 (drop (nat 3) (listing heap2 root_inode 1 [2, 1]))"
    and c: "vtfs_iterate heap2 root_inode 1 0 (3 + 5) =
        Inr ([\<lparr>d_name = ''.'', d_ino = 1, d_type = DT_DIR\<rparr>, \<lparr>d_name = ''..'', d_ino = 1, d_type = DT_DIR\<rparr>,
              \<lparr>d_name = ''f'', d_ino = 3, d_type = DT_REG\<rparr>] @ es2, p2)"
    by blast
  have b': "es2 = [\<lparr>d_name = ''f'', d_ino = 2, d_type = DT_REG\<rparr>]"
    unfolding b listing_heap2 by simp
  have e: "\<exists>es2 p2. vtfs_iterate heap2 root_inode 1 3 5 = Inr (es2, p2) \<and>
      es2 = [\<lparr>d_name = ''f'', d_ino = 2, d_type = DT_REG\<rparr>] \<and>
      vtfs_iterate heap2 root_inode 1 0 (3 + 5) =
        Inr ([\<lparr>d_name = ''.'', d_ino = 1, d_type = DT_DIR\<rparr>, \<lparr>d_name = ''..'', d_ino = 1, d_type = DT_DIR\<rparr>,
              \<lparr>d_name = ''f'', d_ino = 3, d_type = DT_REG\<rparr>] @ es2, p2)"
    using a b' c by blast
  show ?thesis
    by (intro conjI) (fact S_ISDIR_root_inode ip children_heap2 small p0 pmax first e)+
qed

lemma link_result:
  assumes ip: "i_private old_inode = Some old" and nodir: "\<not> S_ISDIR (i_mode old_inode)"
    and ho: "h old = Some on" and hp: "h p = Some pn"
    and kz: "kzalloc_ret env = Some a" and fresh: "a \<notin> dom h"
    and d: "d = (case link_target on of Some t \<Rightarrow> t | None \<Rightarrow> old)"
  shows "vtfs_link h old_inode (Some p) nm env =
           (Inr a, h(a \<mapsto> zero_node\<lparr>name := strscpy nm VTFS_FILE_NAME_LEN, ino := ino on,
                                      is_dir := False, mode := mode on, parent := Some p,
                                      link_target := Some d, next_sibling := first_child pn\<rparr>,
                     p \<mapsto> pn\<lparr>first_child := Some a\<rparr>))"
proof -
  have ha: "h a = None" using fresh by auto
  have ap: "a \<noteq> p" "a \<noteq> old" using hp ho ha by auto
  show ?thesis
    using ip nodir ho hp kz ha ap d
    by (simp add: vtfs_link_def Let_def store_def)
qed

lemma data_node_owner:
  "vtfs_data_node h x = Inr d \<longleftrightarrow>
     (\<exists>n. h x = Some n \<and> d = (case link_target n of Some t \<Rightarrow> t | None \<Rightarrow> x))"
  by (auto simp: vtfs_data_node_def split: option.splits)

text \<open>C8. \<open>vtfs_link\<close> succeeds with a new alias node whose \<open>link_target\<close> is the data node
  of the existing node: the existing node itself, or, if that is an alias, the node it
  points at. That node has no \<open>link_target\<close> of its own, and no alias in the store points
  at an alias. The old node and the new alias resolve to it, so bytes written in full
  through either of them are the bytes a read through the other returns.\<close>

theorem link_shares_buffer:
  assumes flat: "aliases_flat h"
    and ip: "i_private old_inode = Some old" and nodir: "\<not> S_ISDIR (i_mode old_inode)"
    and hp: "h p = Some pn" and kz: "kzalloc_ret env = Some a" and fresh: "a \<notin> dom h"
    and od: "vtfs_data_node h old = Inr d"
    and lk: "vtfs_link h old_inode (Some p) nm env = (r, h')"
    and hd: "h' d = Some dn" and ok: "buf_ok dn"
    and xy: "(x = old \<and> y = a) \<or> (x = a \<and> y = old)"
    and pos: "pos = (if o_append then to_loff (int (size_f dn)) else ppos)"
    and w: "vtfs_write h' x o_append ppos buf wenv = Some (Inr (length buf), h'', ppos')"
  shows "r = Inr a \<and> (\<exists>an. h' a = Some an \<and> link_target an = Some d) \<and>
         link_target dn = None \<and> aliases_flat h' \<and>
         vtfs_data_node h' a = Inr d \<and> vtfs_data_node h' old = Inr d \<and>
         fst (vtfs_read h'' y pos (length buf) True) = Inr buf"
proof -
  from od obtain on where ho: "h old = Some on"
    and d: "d = (case link_target on of Some t \<Rightarrow> t | None \<Rightarrow> old)"
    by (auto simp: data_node_owner)
  define an where "an = zero_node\<lparr>name := strscpy nm VTFS_FILE_NAME_LEN, ino := ino on,
      is_dir := False, mode := mode on, parent := Some p, link_target := Some d,
      next_sibling := first_child pn\<rparr>"
  have res: "vtfs_link h old_inode (Some p) nm env = (Inr a, h(a \<mapsto> an, p \<mapsto> pn\<lparr>first_child := Some a\<rparr>))"
    unfolding an_def by (rule link_result [OF ip nodir ho hp kz fresh d])
  with lk have r: "r = Inr a" and h': "h' = h(a \<mapsto> an, p \<mapsto> pn\<lparr>first_child := Some a\<rparr>)"
    by simp_all
  have ha: "h a = None" using fresh by auto
  have ap: "a \<noteq> p" "a \<noteq> old" using hp ho ha by auto
  have lt: "\<And>c n. h c = Some n \<Longrightarrow> \<exists>n'. h' c = Some n' \<and> link_target n' = link_target n"
    using hp ha by (auto simp: h')
  have pre: "\<And>c n'. h' c = Some n' \<Longrightarrow> c \<noteq> a \<Longrightarrow> \<exists>n. h c = Some n \<and> link_target n = link_target n'"
    using hp by (auto simp: h' split: if_splits)
  have a1: "h' a = Some an" using ap by (simp add: h')
  have a2: "link_target an = Some d" by (simp add: an_def)
  have hdo: "\<exists>m. h d = Some m \<and> link_target m = None"
  proof (cases "link_target on")
    case None
    with d ho show ?thesis by simp
  next
    case (Some t)
    with d flat ho show ?thesis unfolding aliases_flat_def by fastforce
  qed
  then obtain m where m: "h d = Some m" "link_target m = None" by blast
  from lt [OF m(1)] hd m(2) have dn0: "link_target dn = None" by auto
  have fl: "aliases_flat h'" unfolding aliases_flat_def
  proof (intro allI impI)
    fix c n t assume c: "h' c = Some n \<and> link_target n = Some t"
    show "\<exists>m. h' t = Some m \<and> link_target m = None"
    proof (cases "c = a")
      case True
      with c a1 a2 have "t = d" by simp
      with hd dn0 show ?thesis by simp
    next
      case False
      from pre [OF _ False] c obtain n0 where "h c = Some n0" "link_target n0 = Some t"
        by metis
      with flat obtain m0 where "h t = Some m0" "link_target m0 = None"
        unfolding aliases_flat_def by blast
      with lt show ?thesis by metis
    qed
  qed
  have ra: "vtfs_data_node h' a = Inr d" using a1 a2 by (simp add: vtfs_data_node_def)
  from lt [OF ho] obtain on' where "h' old = Some on'" "link_target on' = link_target on" by blast
  then have ro: "vtfs_data_node h' old = Inr d" using d
    by (simp add: vtfs_data_node_def split: option.splits)
  have rx: "vtfs_data_node h' x = Inr d" and ry: "vtfs_data_node h' y = Inr d"
    using xy ra ro by auto
  have rd: "fst (vtfs_read h'' y pos (length buf) True) = Inr buf"
    by (rule write_read_via [OF rx ry hd ok pos w])
  show ?thesis using r a1 a2 dn0 fl ra ro rd by blast
qed

lemma aliases_flat_heap3: "aliases_flat heap3"
  by (auto simp: aliases_flat_def heap3_def root_dir_def zero_node_def empty_file_def alias_g_def
      split: if_splits)

theorem link_shares_buffer_witness:
  "aliases_flat heap3 \<and> i_private alias_inode = Some 2 \<and> \<not> S_ISDIR (i_mode alias_inode) \<and>
   heap3 0 = Some root_dir \<and> kzalloc_ret tenv_ok = Some 3 \<and> 3 \<notin> dom heap3 \<and>
   vtfs_data_node heap3 2 = Inr 1 \<and>
   vtfs_link heap3 alias_inode (Some 0) ''h'' tenv_ok = (Inr 3, heap3_linked) \<and>
   heap3_linked 1 = Some empty_file \<and> buf_ok empty_file \<and>
   vtfs_write heap3_linked 2 False 0 [72, 105] env_ok =
     Some (Inr (length [72, 105 :: byte]), heap3_written, 2) \<and>
   vtfs_write heap3_linked 3 False 0 [72, 105] env_ok =
     Some (Inr (length [72, 105 :: byte]), heap3_written, 2) \<and>
   (\<exists>an. heap3_linked 3 = Some an \<and> link_target an = Some 1) \<and>
   link_target empty_file = None \<and> aliases_flat heap3_linked \<and>
   vtfs_data_node heap3_linked 3 = Inr 1 \<and> vtfs_data_node heap3_linked 2 = Inr 1 \<and>
   fst (vtfs_read heap3_written 3 0 (length [72, 105 :: byte]) True) = Inr [72, 105] \<and>
   fst (vtfs_read heap3_written 2 0 (length [72, 105 :: byte]) True) = Inr [72, 105]"
proof -
  have ip: "i_private alias_inode = Some 2" by (simp add: alias_inode_def)
  have nodir: "\<not> S_ISDIR (i_mode alias_inode)"
    by (simp add: alias_inode_def S_ISDIR_def S_IFMT_def S_IFDIR_def)
  have hp: "heap3 0 = Some root_dir" by (simp add: heap3_def)
  have ho: "heap3 2 = Some alias_g" by (simp add: heap3_def)
  have kz: "kzalloc_ret tenv_ok = Some 3" by (simp add: tenv_ok_def)
  have fresh: "3 \<notin> dom heap3" by (simp add: heap3_def)
  have od: "vtfs_data_node heap3 2 = Inr 1"
    by (simp add: vtfs_data_node_def heap3_def alias_g_def)
  have d: "(1::addr) = (case link_target alias_g of Some t \<Rightarrow> t | None \<Rightarrow> 2)"
    by (simp add: alias_g_def)
  have lk: "vtfs_link heap3 alias_inode (Some 0) ''h'' tenv_ok = (Inr 3, heap3_linked)"
    unfolding heap3_linked_def by (rule link_result [OF ip nodir ho hp kz fresh d])
  have hd: "heap3_linked 1 = Some empty_file" by (simp add: heap3_linked_def heap3_def)
  have r2: "vtfs_data_node heap3_linked 2 = Inr 1"
    by (simp add: vtfs_data_node_def heap3_linked_def heap3_def alias_g_def)
  have r3: "vtfs_data_node heap3_linked 3 = Inr 1"
    by (simp add: vtfs_data_node_def heap3_linked_def heap3_def)
  have w2: "vtfs_write heap3_linked 2 False 0 [72, 105] env_ok =
     Some (Inr (length [72, 105 :: byte]), heap3_written, 2)"
    using write_to_empty_file [OF r2 hd] by (simp add: heap3_written_def)
  have w3: "vtfs_write heap3_linked 3 False 0 [72, 105] env_ok =
     Some (Inr (length [72, 105 :: byte]), heap3_written, 2)"
    using write_to_empty_file [OF r3 hd] by (simp add: heap3_written_def)
  have p: "(0::int) = (if False then to_loff (int (size_f empty_file)) else 0)" by simp
  have xy1: "((2::addr) = 2 \<and> (3::addr) = 3) \<or> ((2::addr) = 3 \<and> (3::addr) = 2)" by simp
  have xy2: "((3::addr) = 2 \<and> (2::addr) = 3) \<or> ((3::addr) = 3 \<and> (2::addr) = 2)" by simp
  note t1 = link_shares_buffer [OF aliases_flat_heap3 ip nodir hp kz fresh od lk hd
      buf_ok_empty_file xy1 p w2]
  note t2 = link_shares_buffer [OF aliases_flat_heap3 ip nodir hp kz fresh od lk hd
      buf_ok_empty_file xy2 p w3]
  from t1 have c1: "\<exists>an. heap3_linked 3 = Some an \<and> link_target an = Some 1"
    and c2: "link_target empty_file = None" and c3: "aliases_flat heap3_linked"
    and c4: "fst (vtfs_read heap3_written 3 0 (length [72, 105 :: byte]) True) = Inr [72, 105]"
    by blast+
  from t2 have c5: "fst (vtfs_read heap3_written 2 0 (length [72, 105 :: byte]) True) = Inr [72, 105]"
    by blast
  show ?thesis
    by (intro conjI)
      (fact aliases_flat_heap3 ip nodir hp kz fresh od lk hd buf_ok_empty_file w2 w3 c1 c2 c3 r3 r2 c4 c5)+
qed

end
